theory Spec2Isabelle
  imports Main "HOL-Library.Product_Lexorder"
begin

section \<open>The writer of dcpomatic: queue items, their order, and the consumer's tests\<close>

text \<open>
  This theory embeds the frame writer (\<^verbatim>\<open>Writer\<close> in writer.cc) as HOL functions.
  A \<^verbatim>\<open>Frame\<close> (a 64-bit signed integer in the source) is an \<^typ>\<open>int\<close>; no function
  below does arithmetic that could leave that range on realistic frame numbers, and the
  narrowing of a frame to \<^verbatim>\<open>int\<close> at the call of \<^verbatim>\<open>video_reel\<close> is taken to keep
  its value.  An index into the list of reels (\<^verbatim>\<open>size_t\<close>) is a \<^typ>\<open>nat\<close>.
\<close>

subsection \<open>Data\<close>

datatype Eyes = EYES_BOTH | EYES_LEFT | EYES_RIGHT

text \<open>The payload of an encoded frame (class \<^verbatim>\<open>Data\<close>): its bytes.\<close>

type_synonym Data = "nat list"

datatype Type = FULL | FAKE | REPEAT

text \<open>
  \<^verbatim>\<open>QueueItem\<close>: the fields that writer.cc reads and writes.  \<^verbatim>\<open>encoded\<close> is
  an optional payload: it is tested with \<^verbatim>\<open>if (qi.encoded)\<close> and emptied with
  \<^verbatim>\<open>encoded.reset ()\<close>.
\<close>

record QueueItem =
  type :: Type
  encoded :: "Data option"
  size_q :: nat
  reel :: nat
  frame :: int
  eyes :: Eyes

text \<open>
  Modelled from the spec: the integer values of the enumeration \<^verbatim>\<open>Eyes\<close>, which
  \<^verbatim>\<open>operator<\<close> compares after \<^verbatim>\<open>static_cast<int>\<close>.  The enumeration is declared
  in a header that is not among the sources; the specification orders the eyes
  Left < Right < Both.
\<close>

fun eyes_int :: "Eyes \<Rightarrow> int" where
  "eyes_int EYES_LEFT = 0"
| "eyes_int EYES_RIGHT = 1"
| "eyes_int EYES_BOTH = 2"

text \<open>\<^verbatim>\<open>operator< (QueueItem const & a, QueueItem const & b)\<close>\<close>

definition queue_lt :: "QueueItem \<Rightarrow> QueueItem \<Rightarrow> bool" where
  "queue_lt a b =
     (if reel a \<noteq> reel b then reel a < reel b
      else if frame a \<noteq> frame b then frame a < frame b
      else eyes_int (eyes a) < eyes_int (eyes b))"

text \<open>\<^verbatim>\<open>operator== (QueueItem const & a, QueueItem const & b)\<close>\<close>

definition queue_eq :: "QueueItem \<Rightarrow> QueueItem \<Rightarrow> bool" where
  "queue_eq a b = (reel a = reel b \<and> frame a = frame b \<and> eyes a = eyes b)"

text \<open>The ordering key of the specification, a triple compared lexicographically.\<close>

definition key :: "QueueItem \<Rightarrow> nat \<times> int \<times> int" where
  "key a = (reel a, frame a, eyes_int (eyes a))"

text \<open>
  \<^verbatim>\<open>_queue.sort ()\<close>: \<^verbatim>\<open>std::list::sort\<close> is a stable sort by \<^verbatim>\<open>operator<\<close>.
  A stable sort is determined by the order alone; here it is insertion from the right,
  where an item goes in front of the first item that is not smaller than it.
\<close>

fun insert_item :: "QueueItem \<Rightarrow> QueueItem list \<Rightarrow> QueueItem list" where
  "insert_item x [] = [x]"
| "insert_item x (y # ys) = (if queue_lt y x then y # insert_item x ys else x # y # ys)"

fun sort_queue :: "QueueItem list \<Rightarrow> QueueItem list" where
  "sort_queue [] = []"
| "sort_queue (x # xs) = insert_item x (sort_queue xs)"


subsection \<open>Time, reels and the writer's state\<close>

type_synonym DCPTime = int

record DCPTimePeriod =
  period_from :: DCPTime
  period_to :: DCPTime

text \<open>
  Modelled from the spec: the time arithmetic of \<^verbatim>\<open>DCPTime\<close> and \<^verbatim>\<open>DCPTimePeriod\<close>
  (their header is not among the sources).  A time is a whole number of ticks, \<open>hz\<close> ticks to
  the second; a period is the half-open interval from \<open>period_from\<close> to \<open>period_to\<close>;
  a frame number becomes a time through the video frame rate.  Integer division is that of
  C++, which rounds towards zero.
\<close>

definition cdiv :: "int \<Rightarrow> int \<Rightarrow> int" where
  "cdiv a b = sgn a * sgn b * (\<bar>a\<bar> div \<bar>b\<bar>)"

definition from_frames :: "int \<Rightarrow> int \<Rightarrow> int \<Rightarrow> DCPTime" where
  "from_frames hz f r = cdiv (f * hz) r"

definition frames_floor :: "int \<Rightarrow> DCPTime \<Rightarrow> int \<Rightarrow> int" where
  "frames_floor hz t r = cdiv (t * r) hz"

definition contains :: "DCPTimePeriod \<Rightarrow> DCPTime \<Rightarrow> bool" where
  "contains p t = (period_from p \<le> t \<and> t < period_to p)"

definition duration :: "DCPTimePeriod \<Rightarrow> DCPTime" where
  "duration p = period_to p - period_from p"

text \<open>
  \<^verbatim>\<open>ReelWriter\<close> is not among the sources.  The record holds what writer.cc reads through
  its accessors (\<^verbatim>\<open>period\<close>, \<^verbatim>\<open>first_nonexistant_frame\<close>,
  \<^verbatim>\<open>last_written_video_frame\<close>, \<^verbatim>\<open>last_written_eyes\<close>,
  \<^verbatim>\<open>total_written_audio_frames\<close>), the reel's frame-info file (absent, or a table from
  frame and eye to the size of the frame), and the subtitles it was given.
\<close>

record ReelWriter =
  period :: DCPTimePeriod
  first_nonexistant_frame :: int
  last_written_video_frame :: int
  last_written_eyes :: Eyes
  total_written_audio_frames :: int
  info_file :: "(int \<times> Eyes \<rightharpoonup> nat) option"
  subtitles :: "string list list"

datatype LogEntry =
    TIMING_sleep nat
  | TIMING_wake nat
  | DEBUG_full_writes int Eyes
  | DEBUG_fake_writes int
  | DEBUG_repeat_writes int
  | GENERAL_pushes int
  | WARNING_left_over nat
  | WARNING_type_full int Eyes
  | WARNING_type_fake nat int Eyes

record PlayerSubtitles =
  subs_text :: "string list"
  subs_from :: DCPTime

text \<open>
  The state of a \<^verbatim>\<open>Writer\<close>, with the parts of the film it consults: whether the film is
  3D, its video frame rate, the tick rate of its times and its log.  The iterators
  \<^verbatim>\<open>_audio_reel\<close> and \<^verbatim>\<open>_subtitle_reel\<close> are indices into \<open>reels\<close>, the index
  \<open>length reels\<close> being \<^verbatim>\<open>_reels.end ()\<close>.  \<open>j2c_files\<close> are the frames pushed to
  disk, under the path made of reel, frame and eye.
\<close>

record Writer =
  three_d :: bool
  video_frame_rate :: int
  hz :: int
  film_log :: "LogEntry list"
  reels :: "ReelWriter list"
  audio_reel :: nat
  subtitle_reel :: nat
  finish :: bool
  queue :: "QueueItem list"
  queued_full_in_memory :: int
  maximum_frames_in_memory :: int
  full_written :: int
  fake_written :: int
  repeat_written :: int
  pushed_to_disk :: int
  j2c_files :: "nat \<times> int \<times> Eyes \<rightharpoonup> Data"
  fonts :: "string list"
  reel_assets :: "string list"

text \<open>
  What an exception of the source is here: a failed \<^verbatim>\<open>DCPOMATIC_ASSERT\<close>, the
  \<^verbatim>\<open>ReadFileError\<close> of \<^verbatim>\<open>fake_write\<close>, a frame-info entry that was never written,
  and a pushed frame that cannot be read back.
\<close>

datatype error = ProgrammingError | ReadFileError | FrameInfoUnavailable | OpenFileError

text \<open>
  A call made by a producer returns, throws, or waits on \<^verbatim>\<open>_full_condition\<close>:
  \<open>Blocked\<close> is the call that found \<^verbatim>\<open>_queued_full_in_memory > _maximum_frames_in_memory\<close>
  and has released the lock to wait, the state unchanged.
\<close>

datatype 'a result = Return 'a | Blocked | Throw error

subsection \<open>Finding the reel of a frame\<close>

text \<open>\<^verbatim>\<open>ReelWriter::start\<close>: the first frame of the reel's period.\<close>

definition start :: "Writer \<Rightarrow> ReelWriter \<Rightarrow> int" where
  "start w r = frames_floor (hz w) (period_from (period r)) (video_frame_rate w)"

text \<open>
  The loop of \<^verbatim>\<open>Writer::video_reel\<close>: \<open>scan_reels t rs i\<close> is the scan standing at
  index \<open>i\<close> with the reels \<open>rs\<close> still ahead; \<open>None\<close> is the scan that ran off the end.
\<close>

fun scan_reels :: "DCPTime \<Rightarrow> ReelWriter list \<Rightarrow> nat \<Rightarrow> nat option" where
  "scan_reels t [] i = None"
| "scan_reels t (r # rs) i = (if contains (period r) t then Some i else scan_reels t rs (i + 1))"

definition video_reel :: "Writer \<Rightarrow> int \<Rightarrow> error + nat" where
  "video_reel w f =
     (case scan_reels (from_frames (hz w) f (video_frame_rate w)) (reels w) 0 of
        None \<Rightarrow> Inl ProgrammingError
      | Some i \<Rightarrow> Inr i)"

subsection \<open>Submitting video\<close>

text \<open>The item that \<^verbatim>\<open>write\<close>, \<^verbatim>\<open>repeat\<close> and \<^verbatim>\<open>fake_write\<close> fill in, then the pushes.\<close>

definition push_items :: "Writer \<Rightarrow> QueueItem \<Rightarrow> Eyes \<Rightarrow> QueueItem list" where
  "push_items w qi e =
     (if three_d w \<and> e = EYES_BOTH
      then [qi\<lparr>eyes := EYES_LEFT\<rparr>, qi\<lparr>eyes := EYES_RIGHT\<rparr>]
      else [qi\<lparr>eyes := e\<rparr>])"

text \<open>\<^verbatim>\<open>Writer::write (Data encoded, Frame frame, Eyes eyes)\<close>\<close>

definition write_video :: "Writer \<Rightarrow> Data \<Rightarrow> int \<Rightarrow> Eyes \<Rightarrow> Writer result" where
  "write_video w enc f e =
     (if queued_full_in_memory w > maximum_frames_in_memory w then Blocked
      else case video_reel w f of
        Inl err \<Rightarrow> Throw err
      | Inr r \<Rightarrow>
          let qi = \<lparr>type = FULL, encoded = Some enc, size_q = 0, reel = r,
                    frame = f - start w (reels w ! r), eyes = e\<rparr>
          in if three_d w \<and> e = EYES_BOTH
             then Return (w\<lparr>queue := queue w @ [qi\<lparr>eyes := EYES_LEFT\<rparr>, qi\<lparr>eyes := EYES_RIGHT\<rparr>],
                            queued_full_in_memory := queued_full_in_memory w + 1 + 1\<rparr>)
             else Return (w\<lparr>queue := queue w @ [qi\<lparr>eyes := e\<rparr>],
                            queued_full_in_memory := queued_full_in_memory w + 1\<rparr>))"

text \<open>\<^verbatim>\<open>Writer::can_repeat\<close>\<close>

definition can_repeat :: "Writer \<Rightarrow> int \<Rightarrow> error + bool" where
  "can_repeat w f =
     (case video_reel w f of Inl err \<Rightarrow> Inl err | Inr r \<Rightarrow> Inr (f > start w (reels w ! r)))"

text \<open>\<^verbatim>\<open>Writer::repeat\<close>\<close>

definition repeat :: "Writer \<Rightarrow> int \<Rightarrow> Eyes \<Rightarrow> Writer result" where
  "repeat w f e =
     (if queued_full_in_memory w > maximum_frames_in_memory w then Blocked
      else case video_reel w f of
        Inl err \<Rightarrow> Throw err
      | Inr r \<Rightarrow>
          let qi = \<lparr>type = REPEAT, encoded = None, size_q = 0, reel = r,
                    frame = f - start w (reels w ! r), eyes = e\<rparr>
          in Return (w\<lparr>queue := queue w @ push_items w qi e\<rparr>))"

text \<open>
  Modelled from the spec: \<^verbatim>\<open>ReelWriter::read_frame_info\<close>, which is not among the sources.
  It gives the recorded size of a frame and fails with \<open>FrameInfoUnavailable\<close> for a slot
  that was never written.
\<close>

definition read_frame_info :: "(int \<times> Eyes \<rightharpoonup> nat) \<Rightarrow> int \<Rightarrow> Eyes \<Rightarrow> error + nat" where
  "read_frame_info file f e =
     (case file (f, e) of None \<Rightarrow> Inl FrameInfoUnavailable | Some n \<Rightarrow> Inr n)"

text \<open>\<^verbatim>\<open>Writer::fake_write\<close>\<close>

definition fake_write :: "Writer \<Rightarrow> int \<Rightarrow> Eyes \<Rightarrow> Writer result" where
  "fake_write w f e =
     (if queued_full_in_memory w > maximum_frames_in_memory w then Blocked
      else case video_reel w f of
        Inl err \<Rightarrow> Throw err
      | Inr r \<Rightarrow>
          (let reel_frame = f - start w (reels w ! r)
           in (case info_file (reels w ! r) of
                 None \<Rightarrow> Throw ReadFileError
               | Some file \<Rightarrow>
                   (case read_frame_info file reel_frame e of
                      Inl err \<Rightarrow> Throw err
                    | Inr n \<Rightarrow>
                        (let qi = \<lparr>type = FAKE, encoded = None, size_q = n, reel = r,
                                   frame = reel_frame, eyes = e\<rparr>
                         in Return (w\<lparr>queue := queue w @ push_items w qi e\<rparr>))))))"

text \<open>\<^verbatim>\<open>Writer::can_fake_write\<close>\<close>

definition can_fake_write :: "Writer \<Rightarrow> int \<Rightarrow> error + bool" where
  "can_fake_write w f =
     (case video_reel w f of
        Inl err \<Rightarrow> Inl err
      | Inr r \<Rightarrow>
          let rl = reels w ! r; f' = f - start w rl
          in Inr (f' \<noteq> 0 \<and> f' < first_nonexistant_frame rl))"


subsection \<open>Audio, subtitles, fonts and referenced assets\<close>

text \<open>
  Modelled from the spec: \<^verbatim>\<open>ReelWriter::write\<close> for audio and for subtitles, which are not
  among the sources.  Both append; the audio one counts what it was given (\<open>n\<close>, the amount
  by which the buffer advances the reel's count of written frames).
\<close>

definition reel_write_audio :: "ReelWriter \<Rightarrow> nat \<Rightarrow> ReelWriter" where
  "reel_write_audio r n = r\<lparr>total_written_audio_frames := total_written_audio_frames r + int n\<rparr>"

definition reel_write_subtitles :: "ReelWriter \<Rightarrow> PlayerSubtitles \<Rightarrow> ReelWriter" where
  "reel_write_subtitles r subs = r\<lparr>subtitles := subtitles r @ [subs_text subs]\<rparr>"

text \<open>\<^verbatim>\<open>Writer::write (shared_ptr<const AudioBuffers> audio)\<close>\<close>

definition write_audio :: "Writer \<Rightarrow> nat \<Rightarrow> Writer" where
  "write_audio w audio =
     (if audio_reel w = length (reels w) then w
      else
        let r = reel_write_audio (reels w ! audio_reel w) audio;
            w1 = w\<lparr>reels := (reels w)[audio_reel w := r]\<rparr>
        in if total_written_audio_frames r
                \<ge> frames_floor (hz w) (duration (period r)) (video_frame_rate w)
           then w1\<lparr>audio_reel := audio_reel w + 1\<rparr>
           else w1)"

text \<open>\<^verbatim>\<open>Writer::write (PlayerSubtitles subs)\<close>\<close>

definition write_subtitles :: "Writer \<Rightarrow> PlayerSubtitles \<Rightarrow> Writer" where
  "write_subtitles w subs =
     (if subs_text subs = [] then w
      else
        let i = (if period_to (period (reels w ! subtitle_reel w)) \<le> subs_from subs
                 then subtitle_reel w + 1 else subtitle_reel w)
        in w\<lparr>subtitle_reel := i,
              reels := (reels w)[i := reel_write_subtitles (reels w ! i) subs]\<rparr>)"

text \<open>\<^verbatim>\<open>Writer::write (list<shared_ptr<Font> > fonts)\<close>\<close>

definition write_fonts :: "Writer \<Rightarrow> string list \<Rightarrow> Writer" where
  "write_fonts w fs = w\<lparr>fonts := fonts w @ fs\<rparr>"

text \<open>\<^verbatim>\<open>Writer::write (ReferencedReelAsset asset)\<close>\<close>

definition write_asset :: "Writer \<Rightarrow> string \<Rightarrow> Writer" where
  "write_asset w a = w\<lparr>reel_assets := reel_assets w @ [a]\<rparr>"

text \<open>
  \<^verbatim>\<open>Writer::set_encoder_threads\<close> stores \<^verbatim>\<open>lrint (threads * 1.1)\<close>; the rounding is
  floating-point arithmetic and stays outside: \<open>m\<close> is the rounded number.
\<close>

definition set_encoder_threads :: "Writer \<Rightarrow> int \<Rightarrow> Writer" where
  "set_encoder_threads w m = w\<lparr>maximum_frames_in_memory := m\<rparr>"

subsection \<open>The consumer\<close>

text \<open>
  \<^verbatim>\<open>Writer::have_sequenced_image_at_queue_head\<close>.  It sorts the queue in place, so it
  returns the writer too.  Every item of the queue was made with a reel index that
  \<^verbatim>\<open>video_reel\<close> returned, so \<^verbatim>\<open>_reels[f.reel]\<close> is a reel of the list.
\<close>

definition have_sequenced_image_at_queue_head :: "Writer \<Rightarrow> bool \<times> Writer" where
  "have_sequenced_image_at_queue_head w =
     (if queue w = [] then (False, w)
      else
        let w' = w\<lparr>queue := sort_queue (queue w)\<rparr>;
            f = hd (queue w');
            rl = reels w' ! reel f
        in (if eyes f = EYES_BOTH then frame f = last_written_video_frame rl + 1
            else if last_written_eyes rl = EYES_LEFT \<and> frame f = last_written_video_frame rl
                    \<and> eyes f = EYES_RIGHT then True
            else if last_written_eyes rl = EYES_RIGHT
                    \<and> frame f = last_written_video_frame rl + 1 \<and> eyes f = EYES_LEFT then True
            else False, w'))"

text \<open>
  Modelled from the spec: the three video writes of \<^verbatim>\<open>ReelWriter\<close>, which are not among
  the sources.  A full write records the frame's size in the frame-info file and moves the
  cursor to the frame and eye written; a fake write and a repeat write move the cursor in the
  same way.  The bytes of the picture asset are not part of the model.
\<close>

definition reel_write :: "ReelWriter \<Rightarrow> Data \<Rightarrow> int \<Rightarrow> Eyes \<Rightarrow> ReelWriter" where
  "reel_write r d f e =
     r\<lparr>info_file := Some ((case info_file r of None \<Rightarrow> Map.empty | Some m \<Rightarrow> m)((f, e) \<mapsto> length d)),
       last_written_video_frame := f, last_written_eyes := e\<rparr>"

definition reel_fake_write :: "ReelWriter \<Rightarrow> int \<Rightarrow> Eyes \<Rightarrow> nat \<Rightarrow> ReelWriter" where
  "reel_fake_write r f e n = r\<lparr>last_written_video_frame := f, last_written_eyes := e\<rparr>"

definition reel_repeat_write :: "ReelWriter \<Rightarrow> int \<Rightarrow> Eyes \<Rightarrow> ReelWriter" where
  "reel_repeat_write r f e = r\<lparr>last_written_video_frame := f, last_written_eyes := e\<rparr>"

text \<open>
  The body of the loop \<^verbatim>\<open>while (have_sequenced_image_at_queue_head ())\<close> of
  \<^verbatim>\<open>Writer::thread\<close>: the head of the queue is popped and written to its reel.  A frame
  that was pushed to disk is read back from its file first.  The progress reported to the job
  is not part of the model.
\<close>

definition write_front :: "Writer \<Rightarrow> error + Writer" where
  "write_front w =
     (case queue w of
        [] \<Rightarrow> Inl ProgrammingError
      | qi # rest \<Rightarrow>
          (let w1 = w\<lparr>queue := rest,
                       queued_full_in_memory :=
                         (if type qi = FULL \<and> encoded qi \<noteq> None
                          then queued_full_in_memory w - 1 else queued_full_in_memory w)\<rparr>;
               rl = reels w1 ! reel qi
           in (case type qi of
                 FULL \<Rightarrow>
                   (case (case encoded qi of
                            None \<Rightarrow> j2c_files w1 (reel qi, frame qi, eyes qi)
                          | Some d \<Rightarrow> Some d) of
                      None \<Rightarrow> Inl OpenFileError
                    | Some d \<Rightarrow>
                        Inr (w1\<lparr>film_log := film_log w1 @ [DEBUG_full_writes (frame qi) (eyes qi)],
                                 reels := (reels w1)[reel qi := reel_write rl d (frame qi) (eyes qi)],
                                 full_written := full_written w1 + 1\<rparr>))
               | FAKE \<Rightarrow>
                   Inr (w1\<lparr>film_log := film_log w1 @ [DEBUG_fake_writes (frame qi)],
                            reels := (reels w1)[reel qi :=
                                       reel_fake_write rl (frame qi) (eyes qi) (size_q qi)],
                            fake_written := fake_written w1 + 1\<rparr>)
               | REPEAT \<Rightarrow>
                   Inr (w1\<lparr>film_log := film_log w1 @ [DEBUG_repeat_writes (frame qi)],
                            reels := (reels w1)[reel qi := reel_repeat_write rl (frame qi) (eyes qi)],
                            repeat_written := repeat_written w1 + 1\<rparr>))))"

text \<open>
  The search \<^verbatim>\<open>while (i != _queue.rend() && (i->type != QueueItem::FULL || !i->encoded)) ++i\<close>
  over the reversed queue: \<open>scan_back xs k\<close> stands \<open>k\<close> steps from the back with \<open>xs\<close>
  ahead, and \<open>None\<close> is \<^verbatim>\<open>_queue.rend ()\<close>.
\<close>

fun scan_back :: "QueueItem list \<Rightarrow> nat \<Rightarrow> nat option" where
  "scan_back [] k = None"
| "scan_back (x # xs) k =
     (if type x \<noteq> FULL \<or> encoded x = None then scan_back xs (k + 1) else Some k)"

text \<open>
  One pass of the loop \<^verbatim>\<open>while (_queued_full_in_memory > _maximum_frames_in_memory)\<close>:
  the item found is written to its file, its payload is released and the count goes down.
  \<open>spill_index\<close> is the place of that item, counted from the head of the sorted queue.
\<close>

definition spill_index :: "QueueItem list \<Rightarrow> nat option" where
  "spill_index q =
     (case scan_back (rev (sort_queue q)) 0 of
        None \<Rightarrow> None
      | Some k \<Rightarrow> Some (length q - 1 - k))"

definition spill_one :: "Writer \<Rightarrow> error + Writer" where
  "spill_one w =
     (let q = sort_queue (queue w)
      in case spill_index (queue w) of
           None \<Rightarrow> Inl ProgrammingError
         | Some i \<Rightarrow>
             (let it = q ! i
              in Inr (w\<lparr>queue := q[i := it\<lparr>encoded := None\<rparr>],
                       pushed_to_disk := pushed_to_disk w + 1,
                       film_log := film_log w @ [GENERAL_pushes (frame it)],
                       j2c_files :=
                         (case encoded it of
                            None \<Rightarrow> j2c_files w
                          | Some d \<Rightarrow> (j2c_files w)((reel it, frame it, eyes it) \<mapsto> d)),
                       queued_full_in_memory := queued_full_in_memory w - 1\<rparr>)))"


subsection \<open>Facts about sorting, needed for the loops to be defined\<close>

lemma length_insert_item: "length (insert_item x xs) = Suc (length xs)"
  by (induction xs) auto

lemma length_sort_queue: "length (sort_queue xs) = length xs"
  by (induction xs) (auto simp: length_insert_item)

lemma sort_queue_Nil_iff: "sort_queue xs = [] \<longleftrightarrow> xs = []"
  using length_sort_queue [of xs] by (metis length_0_conv)

lemma snd_have_sequenced:
  "snd (have_sequenced_image_at_queue_head w) = w\<lparr>queue := sort_queue (queue w)\<rparr>"
  by (simp add: have_sequenced_image_at_queue_head_def Let_def)

lemma have_sequenced_nonempty:
  "fst (have_sequenced_image_at_queue_head w) \<Longrightarrow> queue w \<noteq> []"
  by (auto simp add: have_sequenced_image_at_queue_head_def)

lemma write_front_queue:
  "write_front w = Inr w' \<Longrightarrow> length (queue w) = Suc (length (queue w'))"
  by (auto simp: write_front_def Let_def split: list.splits Type.splits option.splits)


text \<open>
  The loop \<^verbatim>\<open>while (have_sequenced_image_at_queue_head ())\<close>, run without a producer
  in between.  Each pass pops one item, so the loop ends.
\<close>

function write_loop :: "Writer \<Rightarrow> error + Writer" where
  "write_loop w =
     (if fst (have_sequenced_image_at_queue_head w)
      then (case write_front (snd (have_sequenced_image_at_queue_head w)) of
              Inl err \<Rightarrow> Inl err
            | Inr w2 \<Rightarrow> write_loop w2)
      else Inr (snd (have_sequenced_image_at_queue_head w)))"
  by pat_completeness auto
termination
proof (relation "measure (\<lambda>w. length (queue w))")
  show "wf (measure (\<lambda>w. length (queue w)))" by simp
next
  fix w w2
  assume "write_front (snd (have_sequenced_image_at_queue_head w)) = Inr w2"
  from write_front_queue [OF this]
  show "(w2, w) \<in> measure (\<lambda>w. length (queue w))"
    by (simp add: snd_have_sequenced length_sort_queue)
qed

declare write_loop.simps [simp del]

lemma spill_one_count:
  "spill_one w = Inr w' \<Longrightarrow> queued_full_in_memory w' = queued_full_in_memory w - 1
     \<and> maximum_frames_in_memory w' = maximum_frames_in_memory w"
  by (auto simp: spill_one_def Let_def split: option.splits)


text \<open>
  The loop \<^verbatim>\<open>while (_queued_full_in_memory > _maximum_frames_in_memory)\<close>.  Each pass
  lowers the count by one or fails its assertion, so the loop ends.
\<close>

function spill_loop :: "Writer \<Rightarrow> error + Writer" where
  "spill_loop w =
     (if queued_full_in_memory w > maximum_frames_in_memory w
      then (case spill_one w of Inl err \<Rightarrow> Inl err | Inr w' \<Rightarrow> spill_loop w')
      else Inr w)"
  by pat_completeness auto
termination
proof (relation "measure (\<lambda>w. nat (queued_full_in_memory w - maximum_frames_in_memory w))")
  show "wf (measure (\<lambda>w. nat (queued_full_in_memory w - maximum_frames_in_memory w)))" by simp
next
  fix w w'
  assume "maximum_frames_in_memory w < queued_full_in_memory w" "spill_one w = Inr w'"
  then show "(w', w) \<in> measure (\<lambda>w. nat (queued_full_in_memory w - maximum_frames_in_memory w))"
    using spill_one_count [of w w'] by simp
qed

declare spill_loop.simps [simp del]

subsection \<open>The sorted queue and its head\<close>

lemma queue_lt_key: "queue_lt a b \<longleftrightarrow> key a < key b"
  by (auto simp: queue_lt_def key_def)

lemma insert_item_insort: "insert_item x xs = insort_key key x xs"
  by (induction xs) (auto simp: queue_lt_key)

lemma sort_queue_sort_key: "sort_queue xs = sort_key key xs"
  by (induction xs) (auto simp: insert_item_insort)

lemma sorted_sort_queue: "sorted (map key (sort_queue xs))"
  by (simp add: sort_queue_sort_key)

lemma sort_queue_sorted: "sorted (map key xs) \<Longrightarrow> sort_queue xs = xs"
  by (simp add: sort_queue_sort_key sort_key_id_if_sorted)

lemma sort_queue_idem: "sort_queue (sort_queue xs) = sort_queue xs"
  by (simp add: sort_queue_sorted sorted_sort_queue)

lemma set_sort_queue: "set (sort_queue xs) = set xs"
  by (simp add: sort_queue_sort_key)

lemma hd_sort_queue_in: "xs \<noteq> [] \<Longrightarrow> hd (sort_queue xs) \<in> set xs"
  by (metis hd_in_set set_sort_queue sort_queue_Nil_iff)

lemma hd_sort_queue_least:
  assumes "y \<in> set xs"
  shows "\<not> queue_lt y (hd (sort_queue xs))"
proof -
  from assms have "y \<in> set (sort_queue xs)" by (simp add: set_sort_queue)
  moreover have "sorted (map key (sort_queue xs))" by (rule sorted_sort_queue)
  ultimately have "key (hd (sort_queue xs)) \<le> key y"
    by (cases "sort_queue xs") auto
  then show ?thesis by (simp add: queue_lt_key not_less)
qed

lemma have_sequenced_sorted:
  "fst (have_sequenced_image_at_queue_head (w\<lparr>queue := sort_queue (queue w)\<rparr>))
     = fst (have_sequenced_image_at_queue_head w)"
  by (simp add: have_sequenced_image_at_queue_head_def Let_def sort_queue_idem sort_queue_Nil_iff)

lemma write_loop_not_ready:
  "write_loop w = Inr w' \<Longrightarrow> \<not> fst (have_sequenced_image_at_queue_head w')"
proof (induction w rule: write_loop.induct)
  case (1 w)
  show ?case
  proof (cases "fst (have_sequenced_image_at_queue_head w)")
    case True
    from "1.prems" True
    have "(case write_front (snd (have_sequenced_image_at_queue_head w)) of
             Inl err \<Rightarrow> Inl err | Inr w2 \<Rightarrow> write_loop w2) = Inr w'"
      by (subst (asm) write_loop.simps) simp
    then obtain w2 where f: "write_front (snd (have_sequenced_image_at_queue_head w)) = Inr w2"
      and l: "write_loop w2 = Inr w'"
      by (cases "write_front (snd (have_sequenced_image_at_queue_head w))") simp_all
    from "1.IH" [OF True f l] show ?thesis .
  next
    case False
    from "1.prems" False have "w' = w\<lparr>queue := sort_queue (queue w)\<rparr>"
      by (subst (asm) write_loop.simps) (simp add: snd_have_sequenced)
    with False show ?thesis by (simp add: have_sequenced_sorted)
  qed
qed

subsection \<open>The search for a frame to push to disk\<close>

text \<open>An item that holds a payload in memory: the test of the search, and of the pop.\<close>



definition in_memory :: "QueueItem \<Rightarrow> bool" where
  "in_memory x = (type x = FULL \<and> encoded x \<noteq> None)"

lemma eyes_int_inj: "eyes_int a = eyes_int b \<longleftrightarrow> a = b"
  by (cases a; cases b) simp_all

lemma scan_back_None: "scan_back xs k = None \<longleftrightarrow> (\<forall>x\<in>set xs. \<not> in_memory x)"
  by (induction xs arbitrary: k) (auto simp: in_memory_def)

lemma scan_back_Some:
  "scan_back xs k = Some j \<Longrightarrow>
     k \<le> j \<and> j - k < length xs \<and> in_memory (xs ! (j - k)) \<and> (\<forall>m < j - k. \<not> in_memory (xs ! m))"
proof (induction xs arbitrary: k)
  case Nil
  then show ?case by simp
next
  case (Cons x xs)
  show ?case
  proof (cases "in_memory x")
    case True
    with Cons.prems show ?thesis by (auto simp: in_memory_def)
  next
    case False
    with Cons.prems have s: "scan_back xs (Suc k) = Some j" by (auto simp: in_memory_def)
    from Cons.IH [OF s] have a: "Suc k \<le> j" "j - Suc k < length xs"
      "in_memory (xs ! (j - Suc k))" "\<forall>m < j - Suc k. \<not> in_memory (xs ! m)" by auto
    from a(1) have e: "j - k = Suc (j - Suc k)" by simp
    have "\<forall>m < j - k. \<not> in_memory ((x # xs) ! m)"
    proof (intro allI impI)
      fix m assume "m < j - k"
      then show "\<not> in_memory ((x # xs) ! m)"
        using False a(4) e by (cases m) auto
    qed
    with a e show ?thesis by simp
  qed
qed

lemma spill_index_None:
  "spill_index q = None \<longleftrightarrow> (\<forall>x\<in>set q. \<not> in_memory x)"
proof -
  have "spill_index q = None \<longleftrightarrow> scan_back (rev (sort_queue q)) 0 = None"
    by (simp add: spill_index_def split: option.splits)
  then show ?thesis by (simp add: scan_back_None set_sort_queue)
qed

lemma spill_index_Some:
  assumes "spill_index q = Some i"
  shows "i < length q" and "in_memory (sort_queue q ! i)"
    and "\<forall>j. i < j \<and> j < length q \<longrightarrow> \<not> in_memory (sort_queue q ! j)"
proof -
  let ?s = "sort_queue q"
  have len: "length ?s = length q" by (rule length_sort_queue)
  from assms obtain k where k: "scan_back (rev ?s) 0 = Some k" and i: "i = length q - 1 - k"
    by (auto simp: spill_index_def split: option.splits)
  from scan_back_Some [OF k] have kl: "k < length q" and km: "in_memory (rev ?s ! k)"
    and kn: "\<forall>m < k. \<not> in_memory (rev ?s ! m)" by (simp_all add: len)
  from kl i show "i < length q" by simp
  from kl have "rev ?s ! k = ?s ! (length q - Suc k)" by (simp add: rev_nth len)
  with km i show "in_memory (?s ! i)" by simp
  show "\<forall>j. i < j \<and> j < length q \<longrightarrow> \<not> in_memory (?s ! j)"
  proof (intro allI impI)
    fix j assume j: "i < j \<and> j < length q"
    define m where "m = length q - Suc j"
    from j have j1: "i < j" and j2: "j < length q" by simp_all
    from j1 j2 i kl have mk: "m < k" unfolding m_def by arith
    with kl have r: "rev ?s ! m = ?s ! (length q - Suc m)" by (simp add: rev_nth len)
    from j2 have e: "length q - Suc m = j" by (simp add: m_def)
    from kn mk have "\<not> in_memory (rev ?s ! m)" by blast
    with r e show "\<not> in_memory (?s ! j)" by simp
  qed
qed

lemma map_key_release:
  "map key (q[i := (q ! i)\<lparr>encoded := None\<rparr>]) = map key q"
proof -
  have "map key (q[i := (q ! i)\<lparr>encoded := None\<rparr>]) = (map key q)[i := key ((q ! i)\<lparr>encoded := None\<rparr>)]"
    by (simp add: map_update)
  also have "key ((q ! i)\<lparr>encoded := None\<rparr>) = key (q ! i)" by (simp add: key_def)
  also have "(map key q)[i := key (q ! i)] = map key q"
  proof (cases "i < length q")
    case True
    then have "key (q ! i) = map key q ! i" by simp
    then show ?thesis by (simp only: list_update_id)
  next
    case False
    then have "length (map key q) \<le> i" by simp
    then show ?thesis by (rule list_update_beyond)
  qed
  finally show ?thesis .
qed

lemma spill_one_queue:
  "spill_one w = Inr w' \<Longrightarrow> map key (queue w') = map key (sort_queue (queue w)) \<and> reels w' = reels w"
proof -
  assume a: "spill_one w = Inr w'"
  then obtain i where i: "spill_index (queue w) = Some i"
    by (cases "spill_index (queue w)") (simp_all add: spill_one_def)
  from a i have "queue w' = (sort_queue (queue w))[i := (sort_queue (queue w) ! i)\<lparr>encoded := None\<rparr>]"
    and "reels w' = reels w"
    by (auto simp: spill_one_def Let_def)
  then show ?thesis by (simp add: map_key_release)
qed

lemma have_sequenced_keys:
  assumes "map key (sort_queue (queue w')) = map key (sort_queue (queue w))" and "reels w' = reels w"
  shows "fst (have_sequenced_image_at_queue_head w') = fst (have_sequenced_image_at_queue_head w)"
proof (cases "queue w = []")
  case True
  with assms(1) have "queue w' = []"
    by (metis length_0_conv length_map length_sort_queue sort_queue.simps(1))
  with True show ?thesis by (simp add: have_sequenced_image_at_queue_head_def)
next
  case False
  with assms(1) have ne: "queue w' \<noteq> []"
    by (metis length_0_conv length_map length_sort_queue)
  from False obtain a as where a: "sort_queue (queue w) = a # as"
    by (cases "sort_queue (queue w)") (auto simp: sort_queue_Nil_iff)
  from ne obtain b bs where b: "sort_queue (queue w') = b # bs"
    by (cases "sort_queue (queue w')") (auto simp: sort_queue_Nil_iff)
  from assms(1) a b have "key b = key a" by simp
  then have k: "reel b = reel a" "frame b = frame a" "eyes b = eyes a"
    by (simp_all add: key_def eyes_int_inj)
  show ?thesis using False ne a b k assms(2)
    by (simp add: have_sequenced_image_at_queue_head_def Let_def)
qed

lemma spill_one_ready:
  assumes "spill_one w = Inr w'"
  shows "fst (have_sequenced_image_at_queue_head w') = fst (have_sequenced_image_at_queue_head w)"
proof -
  from spill_one_queue [OF assms] have m: "map key (queue w') = map key (sort_queue (queue w))"
    and r: "reels w' = reels w" by auto
  from m have "sorted (map key (queue w'))" by (simp add: sorted_sort_queue)
  then have "sort_queue (queue w') = queue w'" by (rule sort_queue_sorted)
  with m r show ?thesis by (intro have_sequenced_keys) simp_all
qed

lemma spill_loop_post:
  "spill_loop w = Inr w' \<Longrightarrow>
     queued_full_in_memory w' \<le> maximum_frames_in_memory w'
     \<and> fst (have_sequenced_image_at_queue_head w') = fst (have_sequenced_image_at_queue_head w)"
proof (induction w rule: spill_loop.induct)
  case (1 w)
  show ?case
  proof (cases "queued_full_in_memory w > maximum_frames_in_memory w")
    case True
    from "1.prems" True have "(case spill_one w of Inl err \<Rightarrow> Inl err | Inr w1 \<Rightarrow> spill_loop w1) = Inr w'"
      by (subst (asm) spill_loop.simps) simp
    then obtain w1 where s: "spill_one w = Inr w1" and l: "spill_loop w1 = Inr w'"
      by (cases "spill_one w") simp_all
    from "1.IH" [OF True s l] spill_one_ready [OF s] show ?thesis by simp
  next
    case False
    from "1.prems" False have "w' = w"
      by (subst (asm) spill_loop.simps) simp
    with False show ?thesis by simp
  qed
qed

subsection \<open>The consumer thread\<close>

text \<open>
  Where the consumer stands between two runs: waiting on \<^verbatim>\<open>_empty_condition\<close>, or
  returned from \<^verbatim>\<open>Writer::thread\<close>.
\<close>

datatype ThreadState = Sleeping | Returned

text \<open>The line of the log for one item left in the queue.\<close>

definition left_over_entry :: "QueueItem \<Rightarrow> LogEntry" where
  "left_over_entry i =
     (if type i = FULL then WARNING_type_full (frame i) (eyes i)
      else WARNING_type_fake (size_q i) (frame i) (eyes i))"

text \<open>
  \<^verbatim>\<open>Writer::thread\<close>, from the top of its outer loop until it waits or returns, with no
  producer running in between (the comment in the source: no new frames are sent once
  \<^verbatim>\<open>_finish\<close> is true).  \<open>Inl\<close> is an exception, which the source catches and stores.
  After the two inner loops the head is not in sequence and the count is within the
  maximum, so the next pass waits or returns: the function is total.
\<close>

function thread :: "Writer \<Rightarrow> error + ThreadState \<times> Writer" where
  "thread w =
     (if \<not> (finish w \<or> queued_full_in_memory w > maximum_frames_in_memory w
             \<or> fst (have_sequenced_image_at_queue_head w))
      then
        (let w1 = snd (have_sequenced_image_at_queue_head w)
         in Inr (Sleeping, w1\<lparr>film_log := film_log w1 @ [TIMING_sleep (length (queue w1))]\<rparr>))
      else if finish w \<and> queue w = [] then Inr (Returned, w)
      else if finish w \<and> (\<not> fst (have_sequenced_image_at_queue_head w) \<or> queue w = [])
      then
        (let w1 = snd (have_sequenced_image_at_queue_head w)
         in if queue w1 \<noteq> [] \<and> \<not> fst (have_sequenced_image_at_queue_head w1)
            then Inr (Returned,
                      w1\<lparr>film_log := film_log w1 @ WARNING_left_over (length (queue w1))
                                        # map left_over_entry (queue w1)\<rparr>)
            else Inr (Returned, w1))
      else
        (case write_loop w of
           Inl err \<Rightarrow> Inl err
         | Inr w2 \<Rightarrow>
             (case spill_loop w2 of
                Inl err \<Rightarrow> Inl err
              | Inr w3 \<Rightarrow> thread w3)))"
  by pat_completeness auto
termination
proof (relation "measure (\<lambda>w. if fst (have_sequenced_image_at_queue_head w)
                               \<or> queued_full_in_memory w > maximum_frames_in_memory w
                            then 1 else 0)")
  show "wf (measure (\<lambda>w. if fst (have_sequenced_image_at_queue_head w)
                               \<or> queued_full_in_memory w > maximum_frames_in_memory w
                            then 1 else 0))" by simp
next
  fix w w2 w3
  assume a: "\<not> \<not> (finish w \<or> queued_full_in_memory w > maximum_frames_in_memory w
             \<or> fst (have_sequenced_image_at_queue_head w))"
    and b: "\<not> (finish w \<and> queue w = [])"
    and c: "\<not> (finish w \<and> (\<not> fst (have_sequenced_image_at_queue_head w) \<or> queue w = []))"
    and wl: "write_loop w = Inr w2" and sl: "spill_loop w2 = Inr w3"
  from a c have big: "fst (have_sequenced_image_at_queue_head w)
      \<or> queued_full_in_memory w > maximum_frames_in_memory w" by blast
  from write_loop_not_ready [OF wl] spill_loop_post [OF sl]
  have small: "\<not> fst (have_sequenced_image_at_queue_head w3)"
    "\<not> queued_full_in_memory w3 > maximum_frames_in_memory w3" by simp_all
  from big small
  show "(w3, w) \<in> measure (\<lambda>w. if fst (have_sequenced_image_at_queue_head w)
                               \<or> queued_full_in_memory w > maximum_frames_in_memory w
                            then 1 else 0)" by simp
qed

declare thread.simps [simp del]

text \<open>The consumer woken from its wait: it logs and goes round its loop again.\<close>

definition wake :: "Writer \<Rightarrow> error + ThreadState \<times> Writer" where
  "wake w = thread (w\<lparr>film_log := film_log w @ [TIMING_wake (length (queue w))]\<rparr>)"

text \<open>
  \<^verbatim>\<open>Writer::terminate_thread (true)\<close>, as \<^verbatim>\<open>Writer::finish\<close> calls it on a started
  writer whose consumer is waiting: the flag is set, the consumer is woken and joined, and an
  exception it stored is thrown again.  \<open>None\<close> is a join that never returns.
\<close>

definition terminate_thread :: "Writer \<Rightarrow> (error + Writer) option" where
  "terminate_thread w =
     (case wake (w\<lparr>finish := True\<rparr>) of
        Inl err \<Rightarrow> Some (Inl err)
      | Inr (Returned, w') \<Rightarrow> Some (Inr w')
      | Inr (Sleeping, w') \<Rightarrow> None)"

subsection \<open>The count of frames in memory\<close>

text \<open>
  The invariant of \<^verbatim>\<open>_queued_full_in_memory\<close>: it is the number of items of the queue
  that hold a payload in memory.
\<close>

definition count_ok :: "Writer \<Rightarrow> bool" where
  "count_ok w = (queued_full_in_memory w = int (length (filter in_memory (queue w))))"

lemma filter_sort_queue: "length (filter P (sort_queue q)) = length (filter P q)"
  by (simp add: sort_queue_sort_key filter_sort)

lemma count_ok_sorted: "count_ok (w\<lparr>queue := sort_queue (queue w)\<rparr>) = count_ok w"
  by (simp add: count_ok_def filter_sort_queue)

lemma count_ok_have_sequenced:
  "count_ok (snd (have_sequenced_image_at_queue_head w)) = count_ok w"
  by (simp add: snd_have_sequenced count_ok_sorted)

lemma count_ok_write_video: "count_ok w \<Longrightarrow> write_video w enc f e = Return w' \<Longrightarrow> count_ok w'"
  by (auto simp: write_video_def count_ok_def in_memory_def Let_def split: if_splits sum.splits)

lemma push_items_not_in_memory:
  "type qi \<noteq> FULL \<Longrightarrow> filter in_memory (push_items w qi e) = []"
  by (simp add: push_items_def in_memory_def)

lemma count_ok_repeat: "count_ok w \<Longrightarrow> repeat w f e = Return w' \<Longrightarrow> count_ok w'"
  by (auto simp: repeat_def count_ok_def push_items_not_in_memory Let_def
      split: if_splits sum.splits)

lemma count_ok_fake_write: "count_ok w \<Longrightarrow> fake_write w f e = Return w' \<Longrightarrow> count_ok w'"
  by (auto simp: fake_write_def count_ok_def push_items_not_in_memory Let_def
      split: if_splits sum.splits option.splits)

lemma count_ok_write_front: "count_ok w \<Longrightarrow> write_front w = Inr w' \<Longrightarrow> count_ok w'"
  by (auto simp: write_front_def count_ok_def in_memory_def Let_def
      split: list.splits Type.splits option.splits if_splits)

lemma filter_release:
  "i < length q \<Longrightarrow> P (q ! i) \<Longrightarrow> \<not> P v \<Longrightarrow>
     Suc (length (filter P (q[i := v]))) = length (filter P q)"
proof (induction q arbitrary: i)
  case Nil
  then show ?case by simp
next
  case (Cons x q)
  then show ?case by (cases i) auto
qed

lemma count_ok_spill_one:
  assumes "count_ok w" and "spill_one w = Inr w'"
  shows "count_ok w'"
proof -
  let ?q = "sort_queue (queue w)"
  from assms(2) obtain i where i: "spill_index (queue w) = Some i"
    by (cases "spill_index (queue w)") (simp_all add: spill_one_def)
  from assms(2) i have q: "queue w' = ?q[i := (?q ! i)\<lparr>encoded := None\<rparr>]"
    and c: "queued_full_in_memory w' = queued_full_in_memory w - 1"
    by (auto simp: spill_one_def Let_def)
  from spill_index_Some [OF i] have "i < length ?q" "in_memory (?q ! i)"
    by (simp_all add: length_sort_queue)
  moreover have "\<not> in_memory ((?q ! i)\<lparr>encoded := None\<rparr>)" by (simp add: in_memory_def)
  ultimately have "Suc (length (filter in_memory (queue w'))) = length (filter in_memory ?q)"
    unfolding q by (rule filter_release)
  with assms(1) c show ?thesis by (simp add: count_ok_def filter_sort_queue)
qed

lemma count_ok_write_loop: "count_ok w \<Longrightarrow> write_loop w = Inr w' \<Longrightarrow> count_ok w'"
proof (induction w rule: write_loop.induct)
  case (1 w)
  show ?case
  proof (cases "fst (have_sequenced_image_at_queue_head w)")
    case True
    from "1.prems"(2) True
    have "(case write_front (snd (have_sequenced_image_at_queue_head w)) of
             Inl err \<Rightarrow> Inl err | Inr w2 \<Rightarrow> write_loop w2) = Inr w'"
      by (subst (asm) write_loop.simps) simp
    then obtain w2 where f: "write_front (snd (have_sequenced_image_at_queue_head w)) = Inr w2"
      and l: "write_loop w2 = Inr w'"
      by (cases "write_front (snd (have_sequenced_image_at_queue_head w))") simp_all
    from "1.prems"(1) have "count_ok (snd (have_sequenced_image_at_queue_head w))"
      by (simp add: count_ok_have_sequenced)
    from count_ok_write_front [OF this f] have "count_ok w2" .
    from "1.IH" [OF True f this l] show ?thesis .
  next
    case False
    from "1.prems"(2) False have "w' = snd (have_sequenced_image_at_queue_head w)"
      by (subst (asm) write_loop.simps) simp
    with "1.prems"(1) show ?thesis by (simp add: count_ok_have_sequenced)
  qed
qed

lemma count_ok_spill_loop: "count_ok w \<Longrightarrow> spill_loop w = Inr w' \<Longrightarrow> count_ok w'"
proof (induction w rule: spill_loop.induct)
  case (1 w)
  show ?case
  proof (cases "queued_full_in_memory w > maximum_frames_in_memory w")
    case True
    from "1.prems"(2) True
    have "(case spill_one w of Inl err \<Rightarrow> Inl err | Inr w1 \<Rightarrow> spill_loop w1) = Inr w'"
      by (subst (asm) spill_loop.simps) simp
    then obtain w1 where s: "spill_one w = Inr w1" and l: "spill_loop w1 = Inr w'"
      by (cases "spill_one w") simp_all
    from "1.IH" [OF True s count_ok_spill_one [OF "1.prems"(1) s] l] show ?thesis .
  next
    case False
    from "1.prems"(2) False have "w' = w"
      by (subst (asm) spill_loop.simps) simp
    with "1.prems"(1) show ?thesis by simp
  qed
qed

lemma count_ok_film_log: "count_ok (w\<lparr>film_log := l\<rparr>) = count_ok w"
  by (simp add: count_ok_def)

lemma have_sequenced_twice:
  "fst (have_sequenced_image_at_queue_head (snd (have_sequenced_image_at_queue_head w)))
     = fst (have_sequenced_image_at_queue_head w)"
  by (simp add: snd_have_sequenced have_sequenced_sorted)

lemma thread_sleep:
  assumes "\<not> finish w" "\<not> queued_full_in_memory w > maximum_frames_in_memory w"
    "\<not> fst (have_sequenced_image_at_queue_head w)"
  shows "thread w = Inr (Sleeping,
           w\<lparr>queue := sort_queue (queue w),
             film_log := film_log w @ [TIMING_sleep (length (queue w))]\<rparr>)"
  using assms by (subst thread.simps) (simp add: Let_def snd_have_sequenced length_sort_queue)

lemma thread_empty:
  assumes "finish w" "queue w = []"
  shows "thread w = Inr (Returned, w)"
  using assms by (subst thread.simps) simp

lemma thread_left_over:
  assumes "finish w" "queue w \<noteq> []" "\<not> fst (have_sequenced_image_at_queue_head w)"
  shows "thread w = Inr (Returned,
           w\<lparr>queue := sort_queue (queue w),
             film_log := film_log w @ WARNING_left_over (length (queue w))
                           # map left_over_entry (sort_queue (queue w))\<rparr>)"
  using assms
  by (subst thread.simps)
    (simp add: Let_def have_sequenced_twice, simp add: snd_have_sequenced length_sort_queue
      sort_queue_Nil_iff)

lemma thread_work:
  assumes "fst (have_sequenced_image_at_queue_head w)
           \<or> (\<not> finish w \<and> queued_full_in_memory w > maximum_frames_in_memory w)"
  shows "thread w =
     (case write_loop w of
        Inl err \<Rightarrow> Inl err
      | Inr w2 \<Rightarrow> (case spill_loop w2 of Inl err \<Rightarrow> Inl err | Inr w3 \<Rightarrow> thread w3))"
  using assms have_sequenced_nonempty [of w]
  by (subst thread.simps) auto

lemma thread_cases:
  obtains (sleep) "\<not> finish w" "\<not> queued_full_in_memory w > maximum_frames_in_memory w"
      "\<not> fst (have_sequenced_image_at_queue_head w)"
    | (empty) "finish w" "queue w = []"
    | (left_over) "finish w" "queue w \<noteq> []" "\<not> fst (have_sequenced_image_at_queue_head w)"
    | (work) "fst (have_sequenced_image_at_queue_head w)
           \<or> (\<not> finish w \<and> queued_full_in_memory w > maximum_frames_in_memory w)"
  by blast

lemma thread_work_induct:
  assumes "fst (have_sequenced_image_at_queue_head w)
           \<or> (\<not> finish w \<and> queued_full_in_memory w > maximum_frames_in_memory w)"
  shows "finish w \<or> maximum_frames_in_memory w < queued_full_in_memory w
           \<or> fst (have_sequenced_image_at_queue_head w)"
    and "\<not> (finish w \<and> queue w = [])"
    and "\<not> (finish w \<and> (\<not> fst (have_sequenced_image_at_queue_head w) \<or> queue w = []))"
  using assms have_sequenced_nonempty [of w] by auto

lemma count_ok_thread: "count_ok w \<Longrightarrow> thread w = Inr (st, w') \<Longrightarrow> count_ok w'"
proof (induction w rule: thread.induct)
  case (1 w)
  show ?case
  proof (cases w rule: thread_cases)
    case sleep
    from "1.prems"(2) thread_sleep [OF sleep] "1.prems"(1) show ?thesis
      by (auto simp: count_ok_def filter_sort_queue)
  next
    case empty
    from "1.prems"(2) thread_empty [OF empty] "1.prems"(1) show ?thesis by simp
  next
    case left_over
    from "1.prems"(2) thread_left_over [OF left_over] "1.prems"(1) show ?thesis
      by (auto simp: count_ok_def filter_sort_queue)
  next
    case work
    from "1.prems"(2) thread_work [OF work]
    obtain w2 w3 where wl: "write_loop w = Inr w2" and sl: "spill_loop w2 = Inr w3"
      and t: "thread w3 = Inr (st, w')"
      by (auto split: sum.splits)
    from count_ok_write_loop [OF "1.prems"(1) wl] have "count_ok w2" .
    from count_ok_spill_loop [OF this sl] have ok3: "count_ok w3" .
    from "1.IH" [OF _ _ _ wl sl ok3 t] thread_work_induct [OF work] show ?thesis by blast
  qed
qed

lemma count_ok_others:
  "count_ok (write_audio w a) = count_ok w"
  "count_ok (write_subtitles w s) = count_ok w"
  "count_ok (write_fonts w fs) = count_ok w"
  "count_ok (write_asset w x) = count_ok w"
  "count_ok (set_encoder_threads w m) = count_ok w"
  "count_ok (w\<lparr>finish := b\<rparr>) = count_ok w"
  by (simp_all add: count_ok_def write_audio_def write_subtitles_def write_fonts_def
      write_asset_def set_encoder_threads_def Let_def)

lemma count_ok_terminate_thread:
  assumes "count_ok w" and "terminate_thread w = Some (Inr w')"
  shows "count_ok w'"
proof -
  let ?w = "w\<lparr>finish := True, film_log := film_log w @ [TIMING_wake (length (queue w))]\<rparr>"
  from assms(2) have "thread ?w = Inr (Returned, w')"
    by (auto simp: terminate_thread_def wake_def split: sum.splits ThreadState.splits)
  moreover from assms(1) have "count_ok ?w" by (simp add: count_ok_def)
  ultimately show ?thesis by (rule count_ok_thread [rotated])
qed

lemma spill_found:
  assumes "count_ok w" and "queued_full_in_memory w > maximum_frames_in_memory w"
    and "0 \<le> maximum_frames_in_memory w"
  shows "\<exists>i w'. spill_index (queue w) = Some i \<and> spill_one w = Inr w'"
proof -
  from assms have "filter in_memory (queue w) \<noteq> []" by (auto simp: count_ok_def)
  then have "\<exists>x\<in>set (queue w). in_memory x" by (simp add: filter_empty_conv)
  then have "spill_index (queue w) \<noteq> None" by (simp add: spill_index_None)
  then obtain i where "spill_index (queue w) = Some i" by auto
  then show ?thesis by (simp add: spill_one_def Let_def)
qed

lemma spill_loop_returns:
  "count_ok w \<Longrightarrow> 0 \<le> maximum_frames_in_memory w \<Longrightarrow> \<exists>w'. spill_loop w = Inr w'"
proof (induction w rule: spill_loop.induct)
  case (1 w)
  show ?case
  proof (cases "queued_full_in_memory w > maximum_frames_in_memory w")
    case True
    from spill_found [OF "1.prems"(1) True "1.prems"(2)]
    obtain w1 where s: "spill_one w = Inr w1" by blast
    from spill_one_count [OF s] "1.prems"(2) have m: "0 \<le> maximum_frames_in_memory w1" by simp
    from "1.IH" [OF True s count_ok_spill_one [OF "1.prems"(1) s] m]
    obtain w' where "spill_loop w1 = Inr w'" by blast
    with True s have "spill_loop w = Inr w'" by (subst spill_loop.simps) simp
    then show ?thesis by blast
  next
    case False
    then have "spill_loop w = Inr w" by (subst spill_loop.simps) simp
    then show ?thesis by blast
  qed
qed

subsection \<open>Frames pushed to disk and their files\<close>

text \<open>
  Every full item of the queue whose payload was released has its file.  With that, and a
  right count and a maximum that is not negative, the consumer throws nothing.
\<close>

definition files_ok :: "Writer \<Rightarrow> bool" where
  "files_ok w =
     (\<forall>x\<in>set (queue w). type x = FULL \<and> encoded x = None
         \<longrightarrow> j2c_files w (reel x, frame x, eyes x) \<noteq> None)"

lemma files_ok_have_sequenced:
  "files_ok (snd (have_sequenced_image_at_queue_head w)) = files_ok w"
  by (simp add: snd_have_sequenced files_ok_def set_sort_queue)

lemma write_front_returns:
  assumes "files_ok w" and "queue w \<noteq> []"
  shows "\<exists>w'. write_front w = Inr w' \<and> files_ok w'"
proof -
  from assms(2) obtain qi rest where q: "queue w = qi # rest" by (cases "queue w") auto
  show ?thesis
  proof (cases "type qi")
    case FULL
    show ?thesis
    proof (cases "encoded qi")
      case None
      with FULL assms(1) q obtain d where "j2c_files w (reel qi, frame qi, eyes qi) = Some d"
        by (auto simp: files_ok_def)
      with None FULL q assms(1) show ?thesis
        by (auto simp: write_front_def Let_def files_ok_def)
    next
      case (Some d)
      with FULL q assms(1) show ?thesis
        by (auto simp: write_front_def Let_def files_ok_def)
    qed
  next
    case FAKE
    with q assms(1) show ?thesis by (auto simp: write_front_def Let_def files_ok_def)
  next
    case REPEAT
    with q assms(1) show ?thesis by (auto simp: write_front_def Let_def files_ok_def)
  qed
qed

lemma files_ok_write_front: "files_ok w \<Longrightarrow> write_front w = Inr w' \<Longrightarrow> files_ok w'"
  using write_front_returns [of w]
  by (cases "queue w = []") (auto simp: write_front_def)

lemma write_loop_returns: "files_ok w \<Longrightarrow> \<exists>w'. write_loop w = Inr w' \<and> files_ok w'"
proof (induction w rule: write_loop.induct)
  case (1 w)
  let ?w1 = "snd (have_sequenced_image_at_queue_head w)"
  show ?case
  proof (cases "fst (have_sequenced_image_at_queue_head w)")
    case True
    then have "queue ?w1 \<noteq> []"
      using have_sequenced_nonempty [of w] by (simp add: snd_have_sequenced sort_queue_Nil_iff)
    moreover from "1.prems" have "files_ok ?w1" by (simp add: files_ok_have_sequenced)
    ultimately obtain w2 where f: "write_front ?w1 = Inr w2" and ok: "files_ok w2"
      using write_front_returns by blast
    from "1.IH" [OF True f ok] obtain w' where l: "write_loop w2 = Inr w'" and ok': "files_ok w'"
      by blast
    from True f l have "write_loop w = Inr w'" by (subst write_loop.simps) simp
    with ok' show ?thesis by blast
  next
    case False
    then have "write_loop w = Inr ?w1" by (subst write_loop.simps) simp
    with "1.prems" show ?thesis by (simp add: files_ok_have_sequenced)
  qed
qed

lemma files_ok_spill_one:
  assumes "files_ok w" and "spill_one w = Inr w'"
  shows "files_ok w'"
proof -
  let ?q = "sort_queue (queue w)"
  from assms(2) obtain i where i: "spill_index (queue w) = Some i"
    by (cases "spill_index (queue w)") (simp_all add: spill_one_def)
  from spill_index_Some [OF i] obtain d where d: "encoded (?q ! i) = Some d"
    and il: "i < length ?q"
    by (auto simp: in_memory_def length_sort_queue)
  from assms(2) i d have q: "queue w' = ?q[i := (?q ! i)\<lparr>encoded := None\<rparr>]"
    and f: "j2c_files w' = (j2c_files w)((reel (?q ! i), frame (?q ! i), eyes (?q ! i)) \<mapsto> d)"
    by (auto simp: spill_one_def Let_def)
  show ?thesis
    unfolding files_ok_def
  proof (intro ballI impI)
    fix x assume x: "x \<in> set (queue w')" and n: "type x = FULL \<and> encoded x = None"
    from x q have "x = (?q ! i)\<lparr>encoded := None\<rparr> \<or> x \<in> set ?q"
      using set_update_subset_insert [of ?q i "(?q ! i)\<lparr>encoded := None\<rparr>"] by auto
    then show "j2c_files w' (reel x, frame x, eyes x) \<noteq> None"
    proof
      assume "x = (?q ! i)\<lparr>encoded := None\<rparr>"
      then show ?thesis by (simp add: f)
    next
      assume "x \<in> set ?q"
      with assms(1) n have "j2c_files w (reel x, frame x, eyes x) \<noteq> None"
        by (auto simp: files_ok_def set_sort_queue)
      then show ?thesis by (simp add: f)
    qed
  qed
qed

lemma files_ok_spill_loop: "files_ok w \<Longrightarrow> spill_loop w = Inr w' \<Longrightarrow> files_ok w'"
proof (induction w rule: spill_loop.induct)
  case (1 w)
  show ?case
  proof (cases "queued_full_in_memory w > maximum_frames_in_memory w")
    case True
    from "1.prems"(2) True
    have "(case spill_one w of Inl err \<Rightarrow> Inl err | Inr w1 \<Rightarrow> spill_loop w1) = Inr w'"
      by (subst (asm) spill_loop.simps) simp
    then obtain w1 where s: "spill_one w = Inr w1" and l: "spill_loop w1 = Inr w'"
      by (cases "spill_one w") simp_all
    from "1.IH" [OF True s files_ok_spill_one [OF "1.prems"(1) s] l] show ?thesis .
  next
    case False
    from "1.prems"(2) False have "w' = w" by (subst (asm) spill_loop.simps) simp
    with "1.prems"(1) show ?thesis by simp
  qed
qed

lemma maximum_write_front:
  "write_front w = Inr w' \<Longrightarrow> maximum_frames_in_memory w' = maximum_frames_in_memory w"
  by (auto simp: write_front_def Let_def split: list.splits Type.splits option.splits)

lemma maximum_write_loop:
  "write_loop w = Inr w' \<Longrightarrow> maximum_frames_in_memory w' = maximum_frames_in_memory w"
proof (induction w rule: write_loop.induct)
  case (1 w)
  show ?case
  proof (cases "fst (have_sequenced_image_at_queue_head w)")
    case True
    from "1.prems" True
    have "(case write_front (snd (have_sequenced_image_at_queue_head w)) of
             Inl err \<Rightarrow> Inl err | Inr w2 \<Rightarrow> write_loop w2) = Inr w'"
      by (subst (asm) write_loop.simps) simp
    then obtain w2 where f: "write_front (snd (have_sequenced_image_at_queue_head w)) = Inr w2"
      and l: "write_loop w2 = Inr w'"
      by (cases "write_front (snd (have_sequenced_image_at_queue_head w))") simp_all
    from "1.IH" [OF True f l] maximum_write_front [OF f] show ?thesis
      by (simp add: snd_have_sequenced)
  next
    case False
    from "1.prems" False have "w' = snd (have_sequenced_image_at_queue_head w)"
      by (subst (asm) write_loop.simps) simp
    then show ?thesis by (simp add: snd_have_sequenced)
  qed
qed

lemma maximum_spill_loop:
  "spill_loop w = Inr w' \<Longrightarrow> maximum_frames_in_memory w' = maximum_frames_in_memory w"
proof (induction w rule: spill_loop.induct)
  case (1 w)
  show ?case
  proof (cases "queued_full_in_memory w > maximum_frames_in_memory w")
    case True
    from "1.prems" True
    have "(case spill_one w of Inl err \<Rightarrow> Inl err | Inr w1 \<Rightarrow> spill_loop w1) = Inr w'"
      by (subst (asm) spill_loop.simps) simp
    then obtain w1 where s: "spill_one w = Inr w1" and l: "spill_loop w1 = Inr w'"
      by (cases "spill_one w") simp_all
    from "1.IH" [OF True s l] spill_one_count [OF s] show ?thesis by simp
  next
    case False
    from "1.prems" False have "w' = w" by (subst (asm) spill_loop.simps) simp
    then show ?thesis by simp
  qed
qed

lemma thread_returns:
  "count_ok w \<Longrightarrow> files_ok w \<Longrightarrow> 0 \<le> maximum_frames_in_memory w \<Longrightarrow>
     \<exists>st w'. thread w = Inr (st, w')"
proof (induction w rule: thread.induct)
  case (1 w)
  show ?case
  proof (cases w rule: thread_cases)
    case sleep
    from thread_sleep [OF sleep] show ?thesis by blast
  next
    case empty
    from thread_empty [OF empty] show ?thesis by blast
  next
    case left_over
    from thread_left_over [OF left_over] show ?thesis by blast
  next
    case work
    from write_loop_returns [OF "1.prems"(2)] obtain w2 where wl: "write_loop w = Inr w2"
      and f2: "files_ok w2" by blast
    from count_ok_write_loop [OF "1.prems"(1) wl] have c2: "count_ok w2" .
    from maximum_write_loop [OF wl] "1.prems"(3) have m2: "0 \<le> maximum_frames_in_memory w2"
      by simp
    from spill_loop_returns [OF c2 m2] obtain w3 where sl: "spill_loop w2 = Inr w3" by blast
    from count_ok_spill_loop [OF c2 sl] have c3: "count_ok w3" .
    from files_ok_spill_loop [OF f2 sl] have f3: "files_ok w3" .
    from maximum_spill_loop [OF sl] m2 have m3: "0 \<le> maximum_frames_in_memory w3" by simp
    from thread_work_induct [OF work] "1.IH" [OF _ _ _ wl sl c3 f3 m3]
    obtain st w' where "thread w3 = Inr (st, w')" by blast
    with thread_work [OF work] wl sl show ?thesis by simp
  qed
qed

subsection \<open>Producers and consumer, step by step\<close>






section \<open>Example writers, and the wording of the specification\<close>

text \<open>
  \<^verbatim>\<open>Writer::Writer\<close>: one reel for each period of the film, both cursors on the first
  reel, an empty queue, all counters and the maximum at zero.  The constructor of
  \<^verbatim>\<open>ReelWriter\<close> is not among the sources; a new reel's cursor is taken to be frame
  \<open>-1\<close>, right eye, the only cursor from which
  \<^verbatim>\<open>have_sequenced_image_at_queue_head\<close> lets frame 0 of a 2D reel, and the left eye of
  frame 0 of a 3D reel, be written first.
\<close>

definition new_reel :: "DCPTimePeriod \<Rightarrow> ReelWriter" where
  "new_reel p =
     \<lparr>period = p, first_nonexistant_frame = 0, last_written_video_frame = - 1,
      last_written_eyes = EYES_RIGHT, total_written_audio_frames = 0, info_file = None,
      subtitles = []\<rparr>"

definition new_writer :: "bool \<Rightarrow> int \<Rightarrow> int \<Rightarrow> DCPTimePeriod list \<Rightarrow> Writer" where
  "new_writer td rate h ps =
     \<lparr>three_d = td, video_frame_rate = rate, hz = h, film_log = [], reels = map new_reel ps,
      audio_reel = 0, subtitle_reel = 0, finish = False, queue = [],
      queued_full_in_memory = 0, maximum_frames_in_memory = 0, full_written = 0,
      fake_written = 0, repeat_written = 0, pushed_to_disk = 0, j2c_files = Map.empty,
      fonts = [], reel_assets = []\<rparr>"

text \<open>
  A film of two reels at 24 frames a second and 96000 ticks a second: frames 0 to 99 and
  frames 100 to 199.
\<close>

definition two_reels :: "bool \<Rightarrow> Writer" where
  "two_reels td =
     new_writer td 24 96000
       [\<lparr>period_from = 0, period_to = 400000\<rparr>, \<lparr>period_from = 400000, period_to = 800000\<rparr>]"

definition item :: "Type \<Rightarrow> Data option \<Rightarrow> nat \<Rightarrow> nat \<Rightarrow> int \<Rightarrow> Eyes \<Rightarrow> QueueItem" where
  "item t d n r f e = \<lparr>type = t, encoded = d, size_q = n, reel = r, frame = f, eyes = e\<rparr>"

text \<open>
  The readiness test in the words of the specification, with its fourth case: the very
  first frame of a reel, either eye.
\<close>

definition claimed_sequence_ready :: "Writer \<Rightarrow> bool" where
  "claimed_sequence_ready w =
     (queue w \<noteq> [] \<and>
      (let f = hd (sort_queue (queue w)); rl = reels w ! reel f
       in (eyes f = EYES_BOTH \<and> frame f = last_written_video_frame rl + 1)
          \<or> (eyes f = EYES_RIGHT \<and> last_written_eyes rl = EYES_LEFT
               \<and> frame f = last_written_video_frame rl)
          \<or> (eyes f = EYES_LEFT \<and> last_written_eyes rl = EYES_RIGHT
               \<and> frame f = last_written_video_frame rl + 1)
          \<or> (frame f = 0 \<and> (eyes f = EYES_LEFT \<or> eyes f = EYES_RIGHT))))"

text \<open>A new 3D writer whose queue holds the right eye of frame 0 alone.\<close>

definition right_eye_first :: Writer where
  "right_eye_first = (two_reels True)\<lparr>queue := [item FULL (Some [1, 2, 3]) 0 0 0 EYES_RIGHT],
                                      queued_full_in_memory := 1\<rparr>"

text \<open>A new 3D writer that was given the right eye of frame 0, then the left eye.\<close>

definition both_eyes_out_of_order :: Writer where
  "both_eyes_out_of_order =
     (two_reels True)\<lparr>queue := [item FULL (Some [4]) 0 0 0 EYES_RIGHT,
                                 item FULL (Some [3]) 0 0 0 EYES_LEFT],
                       queued_full_in_memory := 2\<rparr>"

text \<open>A writer of one reel, one frame long, that has been given that frame's audio.\<close>

definition audio_done :: Writer where
  "audio_done = write_audio (new_writer False 24 96000 [\<lparr>period_from = 0, period_to = 4000\<rparr>]) 1"

text \<open>
  The 3D writer of the pairing scenario, after the left and the right eye of frame 10 were
  submitted; its maximum is 4 frames.
\<close>

definition pairing :: Writer where
  "pairing =
     (set_encoder_threads (two_reels True) 4)
       \<lparr>queue := [item FULL (Some [1]) 0 0 10 EYES_LEFT, item FULL (Some [2]) 0 0 10 EYES_RIGHT],
        queued_full_in_memory := 2\<rparr>"

text \<open>
  Reels whose periods do not overlap, as the specification has them: no two of them share
  a time.
\<close>

fun periods_disjoint :: "ReelWriter list \<Rightarrow> bool" where
  "periods_disjoint [] = True"
| "periods_disjoint (r # rs) =
     (list_all (\<lambda>s. period_to (period r) \<le> period_from (period s)
                    \<or> period_to (period s) \<le> period_from (period r)) rs
      \<and> periods_disjoint rs)"

text \<open>
  A 2D writer made for a second run over a reel of which frames 0 and 1 are already on
  disk, with their sizes in the frame-info file.
\<close>

definition rerun :: Writer where
  "rerun =
     (new_writer False 24 96000 [\<lparr>period_from = 0, period_to = 400000\<rparr>])
       \<lparr>reels := [(new_reel \<lparr>period_from = 0, period_to = 400000\<rparr>)
                    \<lparr>first_nonexistant_frame := 2,
                     info_file := Some [(0, EYES_BOTH) \<mapsto> 10, (1, EYES_BOTH) \<mapsto> 12]\<rparr>]\<rparr>"

text \<open>A new 2D writer, maximum 0, that was given frame 5 alone.\<close>

definition lone_frame :: Writer where
  "lone_frame = (two_reels False)\<lparr>queue := [item FULL (Some [1]) 0 0 5 EYES_BOTH],
                                   queued_full_in_memory := 1\<rparr>"

text \<open>
  A 2D writer, maximum 1, whose queue holds frame 7, frame 5 and a fake frame 8, two of them
  in memory.
\<close>

definition three_frames :: Writer where
  "three_frames =
     (set_encoder_threads (two_reels False) 1)
       \<lparr>queue := [item FULL (Some [7]) 0 0 7 EYES_BOTH, item FULL (Some [5]) 0 0 5 EYES_BOTH,
                  item FAKE None 9 0 8 EYES_BOTH],
        queued_full_in_memory := 2\<rparr>"

text \<open>
  A 2D writer that was given frames 3, 0 and 1, and never frame 2; and the same writer once
  \<^verbatim>\<open>terminate_thread\<close> has returned: frames 0 and 1 are written, frame 3 is left in the
  queue and logged.
\<close>

definition gap :: Writer where
  "gap =
     (set_encoder_threads (two_reels False) 4)
       \<lparr>queue := [item FULL (Some [13]) 0 0 3 EYES_BOTH, item FULL (Some [10]) 0 0 0 EYES_BOTH,
                  item FULL (Some [11]) 0 0 1 EYES_BOTH],
        queued_full_in_memory := 3\<rparr>"

definition gap_end :: Writer where
  "gap_end =
     gap\<lparr>finish := True,
         queue := [item FULL (Some [13]) 0 0 3 EYES_BOTH],
         queued_full_in_memory := 1,
         full_written := 2,
         reels := [(new_reel \<lparr>period_from = 0, period_to = 400000\<rparr>)
                     \<lparr>info_file := Some [(0, EYES_BOTH) \<mapsto> 1, (1, EYES_BOTH) \<mapsto> 1],
                      last_written_video_frame := 1, last_written_eyes := EYES_BOTH\<rparr>,
                   new_reel \<lparr>period_from = 400000, period_to = 800000\<rparr>],
         film_log := [TIMING_wake 3, DEBUG_full_writes 0 EYES_BOTH, DEBUG_full_writes 1 EYES_BOTH,
                      WARNING_left_over 1, WARNING_type_full 3 EYES_BOTH]\<rparr>"

section \<open>The claims\<close>

subsection \<open>The order of the queue\<close>

text \<open>
  Claim C8.  \<^verbatim>\<open>operator<\<close> is the lexicographic order of the key (reel, frame, eye),
  the eyes in the order left, right, both; \<^verbatim>\<open>operator==\<close> holds exactly when the keys are
  the same; neither looks at the type, the payload or the size of an item.
\<close>

theorem queue_item_order:
  "(queue_lt a b \<longleftrightarrow> key a < key b)
   \<and> (queue_lt a b \<longleftrightarrow>
        reel a < reel b
        \<or> (reel a = reel b
            \<and> (frame a < frame b
                \<or> (frame a = frame b \<and> eyes_int (eyes a) < eyes_int (eyes b)))))
   \<and> eyes_int EYES_LEFT < eyes_int EYES_RIGHT \<and> eyes_int EYES_RIGHT < eyes_int EYES_BOTH
   \<and> (queue_eq a b \<longleftrightarrow> key a = key b)
   \<and> (queue_eq a b \<longleftrightarrow> reel a = reel b \<and> frame a = frame b \<and> eyes a = eyes b)
   \<and> queue_eq (a\<lparr>type := t, encoded := d, size_q := n\<rparr>) b = queue_eq a b
   \<and> queue_lt (a\<lparr>type := t, encoded := d, size_q := n\<rparr>) b = queue_lt a b"
  by (auto simp: queue_lt_def queue_eq_def key_def eyes_int_inj)

theorem queue_item_order_witness:
  "queue_lt (item FULL (Some [7]) 0 0 5 EYES_LEFT) (item FAKE None 9 0 5 EYES_RIGHT)
   \<and> queue_lt (item FULL None 0 0 5 EYES_RIGHT) (item REPEAT None 0 0 5 EYES_BOTH)
   \<and> queue_lt (item FULL None 0 0 5 EYES_BOTH) (item FULL None 0 0 6 EYES_LEFT)
   \<and> queue_lt (item FULL None 0 0 6 EYES_LEFT) (item FULL None 0 1 0 EYES_LEFT)
   \<and> queue_eq (item FULL (Some [7]) 0 0 5 EYES_LEFT) (item FAKE None 9 0 5 EYES_LEFT)"
  using queue_item_order [of "item FULL (Some [7]) 0 0 5 EYES_LEFT" "item FAKE None 9 0 5 EYES_RIGHT"]
    queue_item_order [of "item FULL None 0 0 5 EYES_RIGHT" "item REPEAT None 0 0 5 EYES_BOTH"]
    queue_item_order [of "item FULL None 0 0 5 EYES_BOTH" "item FULL None 0 0 6 EYES_LEFT"]
    queue_item_order [of "item FULL None 0 0 6 EYES_LEFT" "item FULL None 0 1 0 EYES_LEFT"]
    queue_item_order [of "item FULL (Some [7]) 0 0 5 EYES_LEFT" "item FAKE None 9 0 5 EYES_LEFT"]
  by (simp add: item_def key_def)

subsection \<open>Readiness of the head of the queue\<close>

text \<open>
  Claim C1, as the specification words it, fails: with nothing written to a 3D reel, the
  right eye of frame 0 at the head of the queue is the very first frame of its reel, and the
  test answers no.
\<close>

theorem sequence_ready_first_frame_counterexample:
  "claimed_sequence_ready right_eye_first
   \<and> \<not> fst (have_sequenced_image_at_queue_head right_eye_first)"
  by (simp add: claimed_sequence_ready_def have_sequenced_image_at_queue_head_def
      right_eye_first_def two_reels_def new_writer_def new_reel_def item_def Let_def)

text \<open>
  That failure does not hang on the cursor chosen for a new reel: whatever the reel's cursor,
  the test never accepts both the left and the right eye of one frame.
\<close>

lemma first_frame_one_eye_only:
  assumes "queue w = [a]" "queue w' = [b]" "reels w' = reels w" "reel a = reel b"
    "frame a = frame b" "eyes a = EYES_LEFT" "eyes b = EYES_RIGHT"
  shows "\<not> (fst (have_sequenced_image_at_queue_head w) \<and> fst (have_sequenced_image_at_queue_head w'))"
  using assms by (auto simp: have_sequenced_image_at_queue_head_def Let_def)

text \<open>
  Claim C1, amended.  The test answers yes exactly when the queue is not empty and its
  least item (the head of the sorted queue, an item of the queue that no item is below) is:
  for both eyes, the frame after the reel's last written frame; or the right eye of the frame
  whose left eye was written last; or the left eye of the frame after one whose right eye was
  written last.  The first frame of a reel has no case of its own.
\<close>

theorem sequence_ready:
  "(fst (have_sequenced_image_at_queue_head w) \<longleftrightarrow>
      queue w \<noteq> [] \<and>
      (let f = hd (sort_queue (queue w)); rl = reels w ! reel f
       in (eyes f = EYES_BOTH \<and> frame f = last_written_video_frame rl + 1)
          \<or> (eyes f = EYES_RIGHT \<and> last_written_eyes rl = EYES_LEFT
               \<and> frame f = last_written_video_frame rl)
          \<or> (eyes f = EYES_LEFT \<and> last_written_eyes rl = EYES_RIGHT
               \<and> frame f = last_written_video_frame rl + 1)))
   \<and> (queue w \<noteq> [] \<longrightarrow>
        hd (sort_queue (queue w)) \<in> set (queue w)
        \<and> (\<forall>y\<in>set (queue w). \<not> queue_lt y (hd (sort_queue (queue w)))))"
proof (intro conjI impI)
  show "fst (have_sequenced_image_at_queue_head w) \<longleftrightarrow>
      queue w \<noteq> [] \<and>
      (let f = hd (sort_queue (queue w)); rl = reels w ! reel f
       in (eyes f = EYES_BOTH \<and> frame f = last_written_video_frame rl + 1)
          \<or> (eyes f = EYES_RIGHT \<and> last_written_eyes rl = EYES_LEFT
               \<and> frame f = last_written_video_frame rl)
          \<or> (eyes f = EYES_LEFT \<and> last_written_eyes rl = EYES_RIGHT
               \<and> frame f = last_written_video_frame rl + 1))"
    by (cases "eyes (hd (sort_queue (queue w)))")
      (auto simp: have_sequenced_image_at_queue_head_def Let_def)
next
  assume "queue w \<noteq> []"
  then show "hd (sort_queue (queue w)) \<in> set (queue w)" by (rule hd_sort_queue_in)
next
  show "\<forall>y\<in>set (queue w). \<not> queue_lt y (hd (sort_queue (queue w)))"
    by (simp add: hd_sort_queue_least)
qed

theorem sequence_ready_witness:
  "fst (have_sequenced_image_at_queue_head both_eyes_out_of_order)
   \<and> hd (sort_queue (queue both_eyes_out_of_order)) = item FULL (Some [3]) 0 0 0 EYES_LEFT
   \<and> queue both_eyes_out_of_order \<noteq> []
   \<and> \<not> queue_lt (item FULL (Some [4]) 0 0 0 EYES_RIGHT)
          (hd (sort_queue (queue both_eyes_out_of_order)))"
  using sequence_ready [of both_eyes_out_of_order]
  by (simp add: both_eyes_out_of_order_def two_reels_def new_writer_def new_reel_def item_def
      queue_lt_def Let_def)

subsection \<open>Audio after the last reel\<close>

text \<open>
  Claim C10.  When the audio cursor stands past the last reel, a submission of audio leaves
  the writer as it was: nothing is written, no cursor and no counter moves, nothing is thrown.
\<close>

theorem write_audio_off_the_end:
  "audio_reel w = length (reels w) \<Longrightarrow> write_audio w audio = w"
  by (simp add: write_audio_def)

theorem write_audio_off_the_end_witness:
  "audio_reel audio_done = length (reels audio_done) \<and> write_audio audio_done 5 = audio_done"
proof -
  have h: "audio_reel audio_done = length (reels audio_done)"
    by (simp add: audio_done_def write_audio_def new_writer_def new_reel_def reel_write_audio_def
        frames_floor_def duration_def cdiv_def Let_def)
  from h write_audio_off_the_end [OF h, of 5] show ?thesis by simp
qed

subsection \<open>Submitting a full frame\<close>

lemma video_reel_two_reels:
  "video_reel (two_reels td) 99 = Inr 0" "video_reel (two_reels td) 100 = Inr 1"
  "video_reel (two_reels td) 10 = Inr 0" "video_reel (two_reels td) 11 = Inr 0"
  "video_reel (two_reels td) 200 = Inl ProgrammingError"
  by (simp_all add: video_reel_def two_reels_def new_writer_def new_reel_def from_frames_def
      cdiv_def contains_def)

text \<open>
  Claim C6.  A full submission that is not made to wait, for a frame that lies in a reel,
  returns; in a 3D film with both eyes it appends two items for the frame, the left eye then
  the right eye, with the same payload; otherwise it appends one item, for the eye given.
  The count of frames in memory goes up by one for each item appended.
\<close>

theorem write_video_pushes:
  assumes "\<not> queued_full_in_memory w > maximum_frames_in_memory w" and "video_reel w f = Inr r"
  shows "\<exists>w'. write_video w enc f e = Return w'
     \<and> queued_full_in_memory w'
         = queued_full_in_memory w + int (length (queue w') - length (queue w))
     \<and> (if three_d w \<and> e = EYES_BOTH
         then queue w' = queue w @ [item FULL (Some enc) 0 r (f - start w (reels w ! r)) EYES_LEFT,
                                    item FULL (Some enc) 0 r (f - start w (reels w ! r)) EYES_RIGHT]
         else queue w' = queue w @ [item FULL (Some enc) 0 r (f - start w (reels w ! r)) e])"
  using assms by (simp add: write_video_def item_def Let_def)

theorem write_video_pushes_witness:
  "write_video pairing [9] 11 EYES_BOTH =
     Return (pairing\<lparr>queue := [item FULL (Some [1]) 0 0 10 EYES_LEFT,
                               item FULL (Some [2]) 0 0 10 EYES_RIGHT,
                               item FULL (Some [9]) 0 0 11 EYES_LEFT,
                               item FULL (Some [9]) 0 0 11 EYES_RIGHT],
                     queued_full_in_memory := 4\<rparr>)
   \<and> three_d pairing \<and> \<not> queued_full_in_memory pairing > maximum_frames_in_memory pairing
   \<and> video_reel pairing 11 = Inr 0"
proof -
  have a: "\<not> queued_full_in_memory pairing > maximum_frames_in_memory pairing"
    by (simp add: pairing_def set_encoder_threads_def)
  have v: "video_reel pairing 11 = video_reel (two_reels True) 11"
    by (simp add: video_reel_def pairing_def set_encoder_threads_def)
  then have b: "video_reel pairing 11 = Inr 0" by (simp add: video_reel_two_reels)
  have t: "three_d pairing" 
    by (simp add: pairing_def set_encoder_threads_def two_reels_def new_writer_def)
  have s: "start pairing (reels pairing ! 0) = 0"
    by (simp add: start_def pairing_def set_encoder_threads_def two_reels_def new_writer_def
        new_reel_def frames_floor_def cdiv_def)
  have c: "write_video pairing [9] 11 EYES_BOTH =
     Return (pairing\<lparr>queue := [item FULL (Some [1]) 0 0 10 EYES_LEFT,
                               item FULL (Some [2]) 0 0 10 EYES_RIGHT,
                               item FULL (Some [9]) 0 0 11 EYES_LEFT,
                               item FULL (Some [9]) 0 0 11 EYES_RIGHT],
                     queued_full_in_memory := 4\<rparr>)"
    using a b t s
    by (simp add: write_video_def Let_def) (simp add: pairing_def set_encoder_threads_def item_def)
  from write_video_pushes [OF a b, of "[9]" EYES_BOTH] c a b t show ?thesis by simp
qed

subsection \<open>From a frame to its reel\<close>

lemma scan_reels_None: "scan_reels t rs k = None \<longleftrightarrow> (\<forall>r\<in>set rs. \<not> contains (period r) t)"
  by (induction rs arbitrary: k) auto

lemma scan_reels_Some:
  "scan_reels t rs k = Some i \<Longrightarrow>
     k \<le> i \<and> i - k < length rs \<and> contains (period (rs ! (i - k))) t
     \<and> (\<forall>j < i - k. \<not> contains (period (rs ! j)) t)"
proof (induction rs arbitrary: k)
  case Nil
  then show ?case by simp
next
  case (Cons r rs)
  show ?case
  proof (cases "contains (period r) t")
    case True
    with Cons.prems show ?thesis by simp
  next
    case False
    with Cons.prems have s: "scan_reels t rs (Suc k) = Some i" by simp
    from Cons.IH [OF s] have a: "Suc k \<le> i" "i - Suc k < length rs"
      "contains (period (rs ! (i - Suc k))) t" "\<forall>j < i - Suc k. \<not> contains (period (rs ! j)) t"
      by auto
    from a(1) have e: "i - k = Suc (i - Suc k)" by simp
    have "\<forall>j < i - k. \<not> contains (period ((r # rs) ! j)) t"
    proof (intro allI impI)
      fix j assume "j < i - k"
      then show "\<not> contains (period ((r # rs) ! j)) t"
        using False a(4) e by (cases j) auto
    qed
    with a e show ?thesis by simp
  qed
qed

lemma periods_disjoint_unique:
  "periods_disjoint rs \<Longrightarrow> i < length rs \<Longrightarrow> j < length rs \<Longrightarrow>
     contains (period (rs ! i)) t \<Longrightarrow> contains (period (rs ! j)) t \<Longrightarrow> i = j"
proof (induction rs arbitrary: i j)
  case Nil
  then show ?case by simp
next
  case (Cons r rs)
  have clash: "\<And>s. s \<in> set rs \<Longrightarrow> contains (period r) t \<Longrightarrow> contains (period s) t \<Longrightarrow> False"
    using Cons.prems(1) by (auto simp: list_all_iff contains_def)
  show ?case
  proof (cases i)
    case 0
    show ?thesis
    proof (cases j)
      case 0
      with \<open>i = 0\<close> show ?thesis by simp
    next
      case (Suc j')
      with Cons.prems 0 clash [of "rs ! j'"] show ?thesis by auto
    qed
  next
    case (Suc i')
    show ?thesis
    proof (cases j)
      case 0
      with Cons.prems Suc clash [of "rs ! i'"] show ?thesis by auto
    next
      case (Suc j')
      with Cons.prems \<open>i = Suc i'\<close> Cons.IH [of i' j'] show ?thesis by auto
    qed
  qed
qed

lemma video_reel_Inr:
  assumes "video_reel w f = Inr i"
  shows "i < length (reels w)"
    and "contains (period (reels w ! i)) (from_frames (hz w) f (video_frame_rate w))"
    and "\<forall>j<i. \<not> contains (period (reels w ! j)) (from_frames (hz w) f (video_frame_rate w))"
proof -
  from assms have "scan_reels (from_frames (hz w) f (video_frame_rate w)) (reels w) 0 = Some i"
    by (simp add: video_reel_def split: option.splits)
  from scan_reels_Some [OF this]
  show "i < length (reels w)"
    and "contains (period (reels w ! i)) (from_frames (hz w) f (video_frame_rate w))"
    and "\<forall>j<i. \<not> contains (period (reels w ! j)) (from_frames (hz w) f (video_frame_rate w))"
    by simp_all
qed

lemma video_reel_Inl:
  "video_reel w f = Inl err \<longleftrightarrow>
     err = ProgrammingError
     \<and> (\<forall>r\<in>set (reels w). \<not> contains (period r) (from_frames (hz w) f (video_frame_rate w)))"
proof (cases "scan_reels (from_frames (hz w) f (video_frame_rate w)) (reels w) 0")
  case None
  then show ?thesis using scan_reels_None [of "from_frames (hz w) f (video_frame_rate w)" "reels w" 0]
    by (auto simp: video_reel_def)
next
  case (Some a)
  then show ?thesis using scan_reels_None [of "from_frames (hz w) f (video_frame_rate w)" "reels w" 0]
    by (auto simp: video_reel_def)
qed

lemma push_items_address:
  "q \<in> set (push_items w qi e) \<Longrightarrow> reel q = reel qi \<and> frame q = frame qi"
  by (auto simp: push_items_def split: if_splits)

lemma submissions_in_reel:
  assumes n: "\<not> queued_full_in_memory w > maximum_frames_in_memory w"
    and v: "video_reel w f = Inr i"
  shows "write_video w enc f e
       = Return (w\<lparr>queue := queue w @
                     (if three_d w \<and> e = EYES_BOTH
                      then [item FULL (Some enc) 0 i (f - start w (reels w ! i)) EYES_LEFT,
                            item FULL (Some enc) 0 i (f - start w (reels w ! i)) EYES_RIGHT]
                      else [item FULL (Some enc) 0 i (f - start w (reels w ! i)) e]),
                   queued_full_in_memory :=
                     queued_full_in_memory w + (if three_d w \<and> e = EYES_BOTH then 2 else 1)\<rparr>)"
    and "repeat w f e
       = Return (w\<lparr>queue := queue w @
                     (if three_d w \<and> e = EYES_BOTH
                      then [item REPEAT None 0 i (f - start w (reels w ! i)) EYES_LEFT,
                            item REPEAT None 0 i (f - start w (reels w ! i)) EYES_RIGHT]
                      else [item REPEAT None 0 i (f - start w (reels w ! i)) e])\<rparr>)"
    and "info_file (reels w ! i) = Some file \<Longrightarrow> file (f - start w (reels w ! i), e) = Some k \<Longrightarrow>
      fake_write w f e
       = Return (w\<lparr>queue := queue w @
                     (if three_d w \<and> e = EYES_BOTH
                      then [item FAKE None k i (f - start w (reels w ! i)) EYES_LEFT,
                            item FAKE None k i (f - start w (reels w ! i)) EYES_RIGHT]
                      else [item FAKE None k i (f - start w (reels w ! i)) e])\<rparr>)"
    and "info_file (reels w ! i) = None \<Longrightarrow> fake_write w f e = Throw ReadFileError"
    and "info_file (reels w ! i) = Some file \<Longrightarrow> file (f - start w (reels w ! i), e) = None \<Longrightarrow>
      fake_write w f e = Throw FrameInfoUnavailable"
  using n v
  by (simp_all add: write_video_def repeat_def fake_write_def read_frame_info_def push_items_def
      item_def Let_def)

lemma submissions_off_reels:
  assumes n: "\<not> queued_full_in_memory w > maximum_frames_in_memory w"
    and v: "video_reel w f = Inl err"
  shows "write_video w enc f e = Throw err" "repeat w f e = Throw err"
    "fake_write w f e = Throw err"
  using n v by (simp_all add: write_video_def repeat_def fake_write_def)

lemma submissions_waiting:
  assumes "queued_full_in_memory w > maximum_frames_in_memory w"
  shows "write_video w enc f e = Blocked" "repeat w f e = Blocked" "fake_write w f e = Blocked"
  using assms by (simp_all add: write_video_def repeat_def fake_write_def)

text \<open>
  Claim C5.  \<^verbatim>\<open>video_reel\<close> fails its assertion exactly when no reel's period contains
  the time of the frame; otherwise it returns the first reel whose period contains it, which
  is the only such reel when the periods do not overlap; and every item that a submission
  of the frame appends carries that reel and the frame less the reel's start.  A submission
  that is not made to wait, for a frame in reel \<open>i\<close>, returns with exactly its items
  appended (two in a 3D film with both eyes, else one), each at reel \<open>i\<close> and the frame less
  the start of reel \<open>i\<close>: so \<^verbatim>\<open>write\<close> and \<^verbatim>\<open>repeat\<close> always, and
  \<^verbatim>\<open>fake_write\<close> when the frame-info file opens and has the frame (it throws otherwise,
  before it appends anything).  A submission for a frame in no reel throws the failed
  assertion, whichever of the three it is.  With two reels over frames 0 to 99 and 100 to
  199, frame 99 is frame 99 of reel 0 and frame 100 is frame 0 of reel 1.
\<close>

theorem video_reel_resolves:
  "(video_reel w f = Inl ProgrammingError \<longleftrightarrow>
      (\<forall>r\<in>set (reels w). \<not> contains (period r) (from_frames (hz w) f (video_frame_rate w))))
   \<and> (\<forall>i. video_reel w f = Inr i \<longrightarrow>
         i < length (reels w)
         \<and> contains (period (reels w ! i)) (from_frames (hz w) f (video_frame_rate w))
         \<and> (\<forall>j<i. \<not> contains (period (reels w ! j)) (from_frames (hz w) f (video_frame_rate w)))
         \<and> (periods_disjoint (reels w) \<longrightarrow>
              (\<forall>j<length (reels w).
                  contains (period (reels w ! j)) (from_frames (hz w) f (video_frame_rate w))
                  \<longrightarrow> j = i))
         \<and> (\<forall>w' q. (write_video w enc f e = Return w' \<or> repeat w f e = Return w'
                      \<or> fake_write w f e = Return w')
                     \<and> q \<in> set (drop (length (queue w)) (queue w'))
                 \<longrightarrow> reel q = i \<and> frame q = f - start w (reels w ! i)))
   \<and> video_reel (two_reels td) 99 = Inr 0
   \<and> 99 - start (two_reels td) (reels (two_reels td) ! 0) = 99
   \<and> video_reel (two_reels td) 100 = Inr 1
   \<and> 100 - start (two_reels td) (reels (two_reels td) ! 1) = 0
   \<and> (\<not> queued_full_in_memory w > maximum_frames_in_memory w \<longrightarrow>
        (\<forall>i. video_reel w f = Inr i \<longrightarrow>
           write_video w enc f e
             = Return (w\<lparr>queue := queue w @
                          (if three_d w \<and> e = EYES_BOTH
                           then [item FULL (Some enc) 0 i (f - start w (reels w ! i)) EYES_LEFT,
                                 item FULL (Some enc) 0 i (f - start w (reels w ! i)) EYES_RIGHT]
                           else [item FULL (Some enc) 0 i (f - start w (reels w ! i)) e]),
                         queued_full_in_memory :=
                           queued_full_in_memory w
                             + (if three_d w \<and> e = EYES_BOTH then 2 else 1)\<rparr>)
           \<and> repeat w f e
             = Return (w\<lparr>queue := queue w @
                          (if three_d w \<and> e = EYES_BOTH
                           then [item REPEAT None 0 i (f - start w (reels w ! i)) EYES_LEFT,
                                 item REPEAT None 0 i (f - start w (reels w ! i)) EYES_RIGHT]
                           else [item REPEAT None 0 i (f - start w (reels w ! i)) e])\<rparr>)
           \<and> (\<forall>file k. info_file (reels w ! i) = Some file
                   \<and> file (f - start w (reels w ! i), e) = Some k \<longrightarrow>
                 fake_write w f e
                   = Return (w\<lparr>queue := queue w @
                       (if three_d w \<and> e = EYES_BOTH
                        then [item FAKE None k i (f - start w (reels w ! i)) EYES_LEFT,
                              item FAKE None k i (f - start w (reels w ! i)) EYES_RIGHT]
                        else [item FAKE None k i (f - start w (reels w ! i)) e])\<rparr>))
           \<and> (info_file (reels w ! i) = None \<longrightarrow> fake_write w f e = Throw ReadFileError)
           \<and> (\<forall>file. info_file (reels w ! i) = Some file
                   \<and> file (f - start w (reels w ! i), e) = None \<longrightarrow>
                 fake_write w f e = Throw FrameInfoUnavailable))
        \<and> (\<forall>err. video_reel w f = Inl err \<longrightarrow>
              err = ProgrammingError
              \<and> write_video w enc f e = Throw err \<and> repeat w f e = Throw err
              \<and> fake_write w f e = Throw err))"
proof -
  let ?t = "from_frames (hz w) f (video_frame_rate w)"
  have submitted: "(\<not> queued_full_in_memory w > maximum_frames_in_memory w \<longrightarrow>
        (\<forall>i. video_reel w f = Inr i \<longrightarrow>
           write_video w enc f e
             = Return (w\<lparr>queue := queue w @
                          (if three_d w \<and> e = EYES_BOTH
                           then [item FULL (Some enc) 0 i (f - start w (reels w ! i)) EYES_LEFT,
                                 item FULL (Some enc) 0 i (f - start w (reels w ! i)) EYES_RIGHT]
                           else [item FULL (Some enc) 0 i (f - start w (reels w ! i)) e]),
                         queued_full_in_memory :=
                           queued_full_in_memory w
                             + (if three_d w \<and> e = EYES_BOTH then 2 else 1)\<rparr>)
           \<and> repeat w f e
             = Return (w\<lparr>queue := queue w @
                          (if three_d w \<and> e = EYES_BOTH
                           then [item REPEAT None 0 i (f - start w (reels w ! i)) EYES_LEFT,
                                 item REPEAT None 0 i (f - start w (reels w ! i)) EYES_RIGHT]
                           else [item REPEAT None 0 i (f - start w (reels w ! i)) e])\<rparr>)
           \<and> (\<forall>file k. info_file (reels w ! i) = Some file
                   \<and> file (f - start w (reels w ! i), e) = Some k \<longrightarrow>
                 fake_write w f e
                   = Return (w\<lparr>queue := queue w @
                       (if three_d w \<and> e = EYES_BOTH
                        then [item FAKE None k i (f - start w (reels w ! i)) EYES_LEFT,
                              item FAKE None k i (f - start w (reels w ! i)) EYES_RIGHT]
                        else [item FAKE None k i (f - start w (reels w ! i)) e])\<rparr>))
           \<and> (info_file (reels w ! i) = None \<longrightarrow> fake_write w f e = Throw ReadFileError)
           \<and> (\<forall>file. info_file (reels w ! i) = Some file
                   \<and> file (f - start w (reels w ! i), e) = None \<longrightarrow>
                 fake_write w f e = Throw FrameInfoUnavailable))
        \<and> (\<forall>err. video_reel w f = Inl err \<longrightarrow>
              err = ProgrammingError
              \<and> write_video w enc f e = Throw err \<and> repeat w f e = Throw err
              \<and> fake_write w f e = Throw err))"
  proof (intro impI conjI allI)
    fix i assume n: "\<not> queued_full_in_memory w > maximum_frames_in_memory w"
      and v: "video_reel w f = Inr i"
    show "write_video w enc f e
             = Return (w\<lparr>queue := queue w @
                          (if three_d w \<and> e = EYES_BOTH
                           then [item FULL (Some enc) 0 i (f - start w (reels w ! i)) EYES_LEFT,
                                 item FULL (Some enc) 0 i (f - start w (reels w ! i)) EYES_RIGHT]
                           else [item FULL (Some enc) 0 i (f - start w (reels w ! i)) e]),
                         queued_full_in_memory :=
                           queued_full_in_memory w
                             + (if three_d w \<and> e = EYES_BOTH then 2 else 1)\<rparr>)"
      by (rule submissions_in_reel(1) [OF n v])
    show "repeat w f e
             = Return (w\<lparr>queue := queue w @
                          (if three_d w \<and> e = EYES_BOTH
                           then [item REPEAT None 0 i (f - start w (reels w ! i)) EYES_LEFT,
                                 item REPEAT None 0 i (f - start w (reels w ! i)) EYES_RIGHT]
                           else [item REPEAT None 0 i (f - start w (reels w ! i)) e])\<rparr>)"
      by (rule submissions_in_reel(2) [OF n v])
    show "fake_write w f e = Throw ReadFileError" if "info_file (reels w ! i) = None"
      using that by (rule submissions_in_reel(4) [OF n v])
  next
    fix i tbl k
    assume n: "\<not> queued_full_in_memory w > maximum_frames_in_memory w"
      and v: "video_reel w f = Inr i"
      and a: "info_file (reels w ! i) = Some tbl \<and> tbl (f - start w (reels w ! i), e) = Some k"
    from a have a1: "info_file (reels w ! i) = Some tbl"
      and a2: "tbl (f - start w (reels w ! i), e) = Some k" by simp_all
    show "fake_write w f e
                   = Return (w\<lparr>queue := queue w @
                       (if three_d w \<and> e = EYES_BOTH
                        then [item FAKE None k i (f - start w (reels w ! i)) EYES_LEFT,
                              item FAKE None k i (f - start w (reels w ! i)) EYES_RIGHT]
                        else [item FAKE None k i (f - start w (reels w ! i)) e])\<rparr>)"
      by (rule submissions_in_reel(3) [OF n v a1 a2])
  next
    fix i tbl
    assume n: "\<not> queued_full_in_memory w > maximum_frames_in_memory w"
      and v: "video_reel w f = Inr i"
      and a: "info_file (reels w ! i) = Some tbl \<and> tbl (f - start w (reels w ! i), e) = None"
    from a have a1: "info_file (reels w ! i) = Some tbl"
      and a2: "tbl (f - start w (reels w ! i), e) = None" by simp_all
    show "fake_write w f e = Throw FrameInfoUnavailable"
      by (rule submissions_in_reel(5) [OF n v a1 a2])
  next
    fix err assume n: "\<not> queued_full_in_memory w > maximum_frames_in_memory w"
      and v: "video_reel w f = Inl err"
    from v show "err = ProgrammingError" by (simp add: video_reel_Inl)
    show "write_video w enc f e = Throw err" by (rule submissions_off_reels(1) [OF n v])
    show "repeat w f e = Throw err" by (rule submissions_off_reels(2) [OF n v])
    show "fake_write w f e = Throw err" by (rule submissions_off_reels(3) [OF n v])
  qed
  have none: "video_reel w f = Inl ProgrammingError \<longleftrightarrow>
      (\<forall>r\<in>set (reels w). \<not> contains (period r) ?t)"
    by (simp add: video_reel_Inl)
  have found: "i < length (reels w) \<and> contains (period (reels w ! i)) ?t
      \<and> (\<forall>j<i. \<not> contains (period (reels w ! j)) ?t)" if "video_reel w f = Inr i" for i
    using video_reel_Inr [OF that] by simp
  have only: "\<forall>j<length (reels w). contains (period (reels w ! j)) ?t \<longrightarrow> j = i"
    if v: "video_reel w f = Inr i" and d: "periods_disjoint (reels w)" for i
    using periods_disjoint_unique [OF d _ video_reel_Inr(1) [OF v] _ video_reel_Inr(2) [OF v]]
    by blast
  have local: "reel q = i \<and> frame q = f - start w (reels w ! i)"
    if v: "video_reel w f = Inr i"
      and r: "write_video w enc f e = Return w' \<or> repeat w f e = Return w'
             \<or> fake_write w f e = Return w'"
      and q: "q \<in> set (drop (length (queue w)) (queue w'))" for i w' q
  proof -
    from r consider "write_video w enc f e = Return w'" | "repeat w f e = Return w'"
      | "fake_write w f e = Return w'" by blast
    then show ?thesis
    proof cases
      case 1
      with v q show ?thesis
        by (auto simp: write_video_def Let_def split: if_splits)
    next
      case 2
      with v q show ?thesis
        by (auto simp: repeat_def Let_def split: if_splits dest!: push_items_address)
    next
      case 3
      with v q show ?thesis
        by (auto simp: fake_write_def Let_def split: if_splits option.splits sum.splits
            dest!: push_items_address)
    qed
  qed
  have ex: "99 - start (two_reels td) (reels (two_reels td) ! 0) = 99"
    "100 - start (two_reels td) (reels (two_reels td) ! 1) = 0"
    by (simp_all add: start_def two_reels_def new_writer_def new_reel_def
        frames_floor_def cdiv_def)
  from none found only local ex video_reel_two_reels(1,2) [of td]
  have resolved: "(video_reel w f = Inl ProgrammingError \<longleftrightarrow>
      (\<forall>r\<in>set (reels w). \<not> contains (period r) ?t))
   \<and> (\<forall>i. video_reel w f = Inr i \<longrightarrow>
         i < length (reels w)
         \<and> contains (period (reels w ! i)) ?t
         \<and> (\<forall>j<i. \<not> contains (period (reels w ! j)) ?t)
         \<and> (periods_disjoint (reels w) \<longrightarrow>
              (\<forall>j<length (reels w). contains (period (reels w ! j)) ?t \<longrightarrow> j = i))
         \<and> (\<forall>w' q. (write_video w enc f e = Return w' \<or> repeat w f e = Return w'
                      \<or> fake_write w f e = Return w')
                     \<and> q \<in> set (drop (length (queue w)) (queue w'))
                 \<longrightarrow> reel q = i \<and> frame q = f - start w (reels w ! i)))
   \<and> video_reel (two_reels td) 99 = Inr 0
   \<and> 99 - start (two_reels td) (reels (two_reels td) ! 0) = 99
   \<and> video_reel (two_reels td) 100 = Inr 1
   \<and> 100 - start (two_reels td) (reels (two_reels td) ! 1) = 0"
    by blast
  from resolved submitted show ?thesis by - (elim conjE, intro conjI, assumption+)
qed

theorem video_reel_resolves_witness:
  "video_reel (two_reels False) 100 = Inr 1
   \<and> periods_disjoint (reels (two_reels False))
   \<and> contains (period (reels (two_reels False) ! 1)) (from_frames 96000 100 24)
   \<and> \<not> contains (period (reels (two_reels False) ! 0)) (from_frames 96000 100 24)
   \<and> write_video (two_reels False) [5] 100 EYES_BOTH
       = Return ((two_reels False)\<lparr>queue := [item FULL (Some [5]) 0 1 0 EYES_BOTH],
                                    queued_full_in_memory := 1\<rparr>)
   \<and> video_reel (two_reels False) 200 = Inl ProgrammingError
   \<and> repeat (two_reels False) 100 EYES_BOTH
       = Return ((two_reels False)\<lparr>queue := [item REPEAT None 0 1 0 EYES_BOTH]\<rparr>)
   \<and> fake_write (two_reels False) 100 EYES_BOTH = Throw ReadFileError
   \<and> write_video (two_reels False) [5] 200 EYES_BOTH = Throw ProgrammingError
   \<and> repeat (two_reels False) 200 EYES_BOTH = Throw ProgrammingError
   \<and> fake_write (two_reels False) 200 EYES_BOTH = Throw ProgrammingError"
proof -
  have v: "video_reel (two_reels False) 100 = Inr 1" by (rule video_reel_two_reels)
  have n: "\<not> queued_full_in_memory (two_reels False) > maximum_frames_in_memory (two_reels False)"
    "\<not> three_d (two_reels False)" "queue (two_reels False) = []"
    "info_file (reels (two_reels False) ! 1) = None"
    by (simp_all add: two_reels_def new_writer_def new_reel_def)
  have off: "video_reel (two_reels False) 200 = Inl ProgrammingError"
    by (rule video_reel_two_reels)
  have d: "periods_disjoint (reels (two_reels False))"
    by (simp add: two_reels_def new_writer_def new_reel_def)
  have s: "start (two_reels False) (reels (two_reels False) ! 1) = 100"
    by (simp add: start_def two_reels_def new_writer_def new_reel_def frames_floor_def cdiv_def)
  have wv: "write_video (two_reels False) [5] 100 EYES_BOTH
       = Return ((two_reels False)\<lparr>queue := [item FULL (Some [5]) 0 1 0 EYES_BOTH],
                                    queued_full_in_memory := 1\<rparr>)"
    using v s by (simp add: write_video_def Let_def) (simp add: two_reels_def new_writer_def item_def)
  have c: "\<not> contains (period (reels (two_reels False) ! 0)) (from_frames 96000 100 24)"
    by (simp add: two_reels_def new_writer_def new_reel_def from_frames_def cdiv_def contains_def)
  have h: "hz (two_reels False) = 96000" "video_frame_rate (two_reels False) = 24"
    by (simp_all add: two_reels_def new_writer_def)
  note at100 = video_reel_resolves [of "two_reels False" 100 "[5]" EYES_BOTH False]
  note at200 = video_reel_resolves [of "two_reels False" 200 "[5]" EYES_BOTH False]
  from at100 v d h
  have inside: "contains (period (reels (two_reels False) ! 1)) (from_frames 96000 100 24)"
    by simp
  from at100 v n s
  have rp: "repeat (two_reels False) 100 EYES_BOTH
       = Return ((two_reels False)\<lparr>queue := [item REPEAT None 0 1 0 EYES_BOTH]\<rparr>)"
    by simp
  from at100 v n
  have fk: "fake_write (two_reels False) 100 EYES_BOTH = Throw ReadFileError" by simp
  from at200 off n
  have thrown: "write_video (two_reels False) [5] 200 EYES_BOTH = Throw ProgrammingError"
    "repeat (two_reels False) 200 EYES_BOTH = Throw ProgrammingError"
    "fake_write (two_reels False) 200 EYES_BOTH = Throw ProgrammingError"
    by simp_all
  from inside v d c wv off rp fk thrown show ?thesis by simp
qed

subsection \<open>Fake writes\<close>

lemma rerun_facts:
  "video_reel rerun 0 = Inr 0" "video_reel rerun 1 = Inr 0"
  "start rerun (reels rerun ! 0) = 0"
  "\<not> queued_full_in_memory rerun > maximum_frames_in_memory rerun"
  by (simp_all add: rerun_def video_reel_def new_writer_def new_reel_def from_frames_def cdiv_def
      contains_def start_def frames_floor_def)

text \<open>
  Claim C2, as the specification words it, fails: \<^verbatim>\<open>fake_write\<close> makes no test of the
  frame.  For frame 0 of a reel whose frame-info file has that frame, \<^verbatim>\<open>can_fake_write\<close>
  answers no, and \<^verbatim>\<open>fake_write\<close> all the same returns with a fake item in the queue.
\<close>

theorem fake_write_first_frame_counterexample:
  "can_fake_write rerun 0 = Inr False
   \<and> fake_write rerun 0 EYES_BOTH = Return (rerun\<lparr>queue := [item FAKE None 10 0 0 EYES_BOTH]\<rparr>)"
  using rerun_facts
  by (simp add: can_fake_write_def fake_write_def Let_def)
    (simp add: rerun_def new_writer_def new_reel_def read_frame_info_def push_items_def item_def)

text \<open>
  Claim C2, amended.  For a frame that lies in a reel, \<^verbatim>\<open>can_fake_write\<close> answers yes
  exactly when the frame within the reel is not 0 and is below the reel's
  \<^verbatim>\<open>first_nonexistant_frame\<close>.  \<^verbatim>\<open>fake_write\<close> does not consult that answer: it
  waits exactly when the count is over the maximum, it appends its fake items whenever the
  reel's frame-info file opens and has the frame, and what it throws is
  \<^verbatim>\<open>ReadFileError\<close> or the failure of the frame-info lookup.
\<close>

theorem can_fake_write_iff:
  assumes "video_reel w f = Inr r"
  shows "can_fake_write w f
           = Inr (f - start w (reels w ! r) \<noteq> 0
                  \<and> f - start w (reels w ! r) < first_nonexistant_frame (reels w ! r))
     \<and> (fake_write w f e = Blocked \<longleftrightarrow> queued_full_in_memory w > maximum_frames_in_memory w)
     \<and> (\<forall>file n. \<not> queued_full_in_memory w > maximum_frames_in_memory w
            \<and> info_file (reels w ! r) = Some file
            \<and> file (f - start w (reels w ! r), e) = Some n
          \<longrightarrow> fake_write w f e
                = Return (w\<lparr>queue := queue w
                    @ push_items w (item FAKE None n r (f - start w (reels w ! r)) e) e\<rparr>))
     \<and> (\<forall>err. fake_write w f e = Throw err \<longrightarrow> err = ReadFileError \<or> err = FrameInfoUnavailable)"
  using assms
  by (auto simp: can_fake_write_def fake_write_def read_frame_info_def item_def Let_def
      split: option.splits)

theorem can_fake_write_iff_witness:
  "can_fake_write rerun 1 = Inr True
   \<and> fake_write rerun 1 EYES_BOTH = Return (rerun\<lparr>queue := [item FAKE None 12 0 1 EYES_BOTH]\<rparr>)
   \<and> video_reel rerun 1 = Inr 0"
proof -
  have i: "info_file (reels rerun ! 0) = Some [(0, EYES_BOTH) \<mapsto> 10, (1, EYES_BOTH) \<mapsto> 12]"
    "first_nonexistant_frame (reels rerun ! 0) = 2" "queue rerun = []" "\<not> three_d rerun"
    by (simp_all add: rerun_def new_writer_def new_reel_def)
  from can_fake_write_iff [OF rerun_facts(2), of EYES_BOTH] rerun_facts i
  show ?thesis by (simp add: push_items_def item_def)
qed

subsection \<open>The invariant of the count\<close>

text \<open>
  Claim C9.  Every operation of the writer keeps the count equal to the number of items
  that hold a payload in memory: the three submissions, the readiness test (which sorts), the
  consumer's two loops and each of their passes, the consumer thread as a whole, the end of
  the thread, and the submissions of audio, subtitles, fonts and assets.  So, the maximum
  being a number of frames (not negative), whenever the count is over the maximum the search
  from the back finds an item with a payload in memory, the pass succeeds, and the whole loop
  returns without a failed assertion.
\<close>

theorem count_invariant:
  "count_ok w \<longrightarrow>
     (\<forall>w'. write_video w enc f e = Return w' \<longrightarrow> count_ok w')
   \<and> (\<forall>w'. repeat w f e = Return w' \<longrightarrow> count_ok w')
   \<and> (\<forall>w'. fake_write w f e = Return w' \<longrightarrow> count_ok w')
   \<and> count_ok (snd (have_sequenced_image_at_queue_head w))
   \<and> (\<forall>w'. write_front w = Inr w' \<longrightarrow> count_ok w')
   \<and> (\<forall>w'. spill_one w = Inr w' \<longrightarrow> count_ok w')
   \<and> (\<forall>w'. write_loop w = Inr w' \<longrightarrow> count_ok w')
   \<and> (\<forall>w'. spill_loop w = Inr w' \<longrightarrow> count_ok w')
   \<and> (\<forall>st w'. thread w = Inr (st, w') \<longrightarrow> count_ok w')
   \<and> (\<forall>w'. terminate_thread w = Some (Inr w') \<longrightarrow> count_ok w')
   \<and> count_ok (write_audio w a) \<and> count_ok (write_subtitles w s)
   \<and> count_ok (write_fonts w fs) \<and> count_ok (write_asset w x)
   \<and> count_ok (set_encoder_threads w m)
   \<and> (queued_full_in_memory w > maximum_frames_in_memory w \<and> 0 \<le> maximum_frames_in_memory w
        \<longrightarrow> (\<exists>i w'. spill_index (queue w) = Some i \<and> in_memory (sort_queue (queue w) ! i)
                     \<and> spill_one w = Inr w')
            \<and> (\<exists>w'. spill_loop w = Inr w'))"
proof
  assume ok: "count_ok w"
  have found: "\<exists>i w'. spill_index (queue w) = Some i \<and> in_memory (sort_queue (queue w) ! i)
                     \<and> spill_one w = Inr w'"
    if "queued_full_in_memory w > maximum_frames_in_memory w" "0 \<le> maximum_frames_in_memory w"
    using spill_found [OF ok that] spill_index_Some(2) by blast
  from ok found show "(\<forall>w'. write_video w enc f e = Return w' \<longrightarrow> count_ok w')
   \<and> (\<forall>w'. repeat w f e = Return w' \<longrightarrow> count_ok w')
   \<and> (\<forall>w'. fake_write w f e = Return w' \<longrightarrow> count_ok w')
   \<and> count_ok (snd (have_sequenced_image_at_queue_head w))
   \<and> (\<forall>w'. write_front w = Inr w' \<longrightarrow> count_ok w')
   \<and> (\<forall>w'. spill_one w = Inr w' \<longrightarrow> count_ok w')
   \<and> (\<forall>w'. write_loop w = Inr w' \<longrightarrow> count_ok w')
   \<and> (\<forall>w'. spill_loop w = Inr w' \<longrightarrow> count_ok w')
   \<and> (\<forall>st w'. thread w = Inr (st, w') \<longrightarrow> count_ok w')
   \<and> (\<forall>w'. terminate_thread w = Some (Inr w') \<longrightarrow> count_ok w')
   \<and> count_ok (write_audio w a) \<and> count_ok (write_subtitles w s)
   \<and> count_ok (write_fonts w fs) \<and> count_ok (write_asset w x)
   \<and> count_ok (set_encoder_threads w m)
   \<and> (queued_full_in_memory w > maximum_frames_in_memory w \<and> 0 \<le> maximum_frames_in_memory w
        \<longrightarrow> (\<exists>i w'. spill_index (queue w) = Some i \<and> in_memory (sort_queue (queue w) ! i)
                     \<and> spill_one w = Inr w')
            \<and> (\<exists>w'. spill_loop w = Inr w'))"
    by (auto simp: count_ok_others count_ok_have_sequenced
        intro: count_ok_write_video count_ok_repeat count_ok_fake_write count_ok_write_front
          count_ok_spill_one count_ok_write_loop count_ok_spill_loop count_ok_thread
          count_ok_terminate_thread spill_loop_returns)
qed

theorem count_invariant_witness:
  "count_ok three_frames
   \<and> queued_full_in_memory three_frames > maximum_frames_in_memory three_frames
   \<and> 0 \<le> maximum_frames_in_memory three_frames
   \<and> spill_index (queue three_frames) = Some 1
   \<and> (\<exists>w'. spill_one three_frames = Inr w' \<and> count_ok w')
   \<and> (\<exists>w'. spill_loop three_frames = Inr w')"
proof -
  have a: "count_ok three_frames"
    "queued_full_in_memory three_frames > maximum_frames_in_memory three_frames"
    "0 \<le> maximum_frames_in_memory three_frames"
    by (simp_all add: count_ok_def three_frames_def set_encoder_threads_def in_memory_def item_def)
  have i: "spill_index (queue three_frames) = Some 1"
    by (simp add: spill_index_def three_frames_def set_encoder_threads_def item_def queue_lt_def)
  note inv = count_invariant [where w = three_frames and enc = "[]" and f = 0 and e = EYES_BOTH
      and a = 0 and s = "\<lparr>subs_text = [], subs_from = 0\<rparr>" and fs = "[]" and x = "[]" and m = 0,
      THEN mp, OF a(1)]
  from inv a(2,3) have "\<exists>w'. spill_one three_frames = Inr w' \<and> count_ok w'" by blast
  moreover from inv a(2,3) have "\<exists>w'. spill_loop three_frames = Inr w'" by blast
  ultimately show ?thesis using a i by blast
qed

subsection \<open>The frame pushed to disk\<close>

lemma filter_head_only:
  assumes "\<forall>j. 0 < j \<and> j < length xs \<longrightarrow> \<not> P (xs ! j)"
  shows "length (filter P xs) \<le> 1"
proof (cases xs)
  case Nil
  then show ?thesis by simp
next
  case (Cons x ys)
  have "filter P ys = []"
  proof (simp add: filter_empty_conv, intro ballI)
    fix y assume "y \<in> set ys"
    then obtain k where "k < length ys" "ys ! k = y" by (auto simp: in_set_conv_nth)
    with assms Cons show "\<not> P y" by (auto dest!: spec [of _ "Suc k"])
  qed
  with Cons show ?thesis by simp
qed

text \<open>
  Claim C3, as the specification words it, fails: the search does not leave out the head of
  the queue.  A new writer (maximum 0) that is given frame 5 alone holds one frame in memory,
  more than its maximum, and the head is not in sequence; the frame pushed to disk is the
  head.
\<close>

theorem push_to_disk_counterexample:
  "write_video (two_reels False) [1] 5 EYES_BOTH = Return lone_frame
   \<and> queued_full_in_memory lone_frame > maximum_frames_in_memory lone_frame
   \<and> \<not> fst (have_sequenced_image_at_queue_head lone_frame)
   \<and> spill_index (queue lone_frame) = Some 0
   \<and> spill_one lone_frame
       = Inr (lone_frame\<lparr>queue := [item FULL None 0 0 5 EYES_BOTH],
                         pushed_to_disk := 1, film_log := [GENERAL_pushes 5],
                         j2c_files := [(0, 5, EYES_BOTH) \<mapsto> [1]],
                         queued_full_in_memory := 0\<rparr>)"
proof -
  have v: "video_reel (two_reels False) 5 = Inr 0"
    by (simp add: video_reel_def two_reels_def new_writer_def new_reel_def from_frames_def
      cdiv_def contains_def)
  have s: "start (two_reels False) (reels (two_reels False) ! 0) = 0"
    by (simp add: start_def two_reels_def new_writer_def new_reel_def frames_floor_def cdiv_def)
  have m: "\<not> queued_full_in_memory (two_reels False) > maximum_frames_in_memory (two_reels False)"
    "\<not> three_d (two_reels False)"
    by (simp_all add: two_reels_def new_writer_def)
  have 1: "write_video (two_reels False) [1] 5 EYES_BOTH = Return lone_frame"
    using v s m by (simp add: write_video_def Let_def lone_frame_def item_def)
      (simp add: two_reels_def new_writer_def)
  have 2: "queued_full_in_memory lone_frame > maximum_frames_in_memory lone_frame"
    by (simp add: lone_frame_def two_reels_def new_writer_def)
  have 3: "\<not> fst (have_sequenced_image_at_queue_head lone_frame)"
    by (simp add: have_sequenced_image_at_queue_head_def lone_frame_def two_reels_def
        new_writer_def new_reel_def item_def Let_def)
  have 4: "spill_index (queue lone_frame) = Some 0"
    by (simp add: spill_index_def lone_frame_def item_def)
  have 5: "spill_one lone_frame
       = Inr (lone_frame\<lparr>queue := [item FULL None 0 0 5 EYES_BOTH],
                         pushed_to_disk := 1, film_log := [GENERAL_pushes 5],
                         j2c_files := [(0, 5, EYES_BOTH) \<mapsto> [1]],
                         queued_full_in_memory := 0\<rparr>)"
    using 4 by (simp add: spill_one_def Let_def)
      (simp add: lone_frame_def two_reels_def new_writer_def item_def)
  from 1 2 3 4 5 show ?thesis by simp
qed

text \<open>
  Claim C3, amended.  The item pushed to disk is the item farthest from the head of the
  sorted queue that is full and holds its payload in memory.  It is not the head when the
  count is right, is over the maximum, and the maximum is at least 1.  The pass writes the
  payload to the item's file, releases the payload in the queue, lowers the count by one and
  counts one more frame pushed.
\<close>

theorem push_to_disk_selects:
  assumes "spill_index (queue w) = Some i"
  shows "i < length (queue w)
     \<and> in_memory (sort_queue (queue w) ! i)
     \<and> (\<forall>j. i < j \<and> j < length (queue w) \<longrightarrow> \<not> in_memory (sort_queue (queue w) ! j))
     \<and> (count_ok w \<and> queued_full_in_memory w > maximum_frames_in_memory w
          \<and> 1 \<le> maximum_frames_in_memory w \<longrightarrow> i \<noteq> 0)
     \<and> (\<exists>w' d. spill_one w = Inr w'
           \<and> encoded (sort_queue (queue w) ! i) = Some d
           \<and> queue w' = (sort_queue (queue w))[i := (sort_queue (queue w) ! i)\<lparr>encoded := None\<rparr>]
           \<and> encoded (queue w' ! i) = None
           \<and> j2c_files w' (reel (sort_queue (queue w) ! i), frame (sort_queue (queue w) ! i),
                            eyes (sort_queue (queue w) ! i)) = Some d
           \<and> queued_full_in_memory w' = queued_full_in_memory w - 1
           \<and> pushed_to_disk w' = pushed_to_disk w + 1)"
proof -
  let ?q = "sort_queue (queue w)"
  note s = spill_index_Some [OF assms]
  from s(2) obtain d where d: "encoded (?q ! i) = Some d" by (auto simp: in_memory_def)
  have far: "i \<noteq> 0" if ok: "count_ok w"
    and over: "queued_full_in_memory w > maximum_frames_in_memory w"
    and one: "1 \<le> maximum_frames_in_memory w"
  proof
    assume "i = 0"
    with s(3) have "\<forall>j. 0 < j \<and> j < length ?q \<longrightarrow> \<not> in_memory (?q ! j)"
      by (simp add: length_sort_queue)
    then have "length (filter in_memory ?q) \<le> 1" by (rule filter_head_only)
    with ok have "queued_full_in_memory w \<le> 1" by (simp add: count_ok_def filter_sort_queue)
    with over one show False by simp
  qed
  have "spill_one w = Inr (w\<lparr>queue := ?q[i := (?q ! i)\<lparr>encoded := None\<rparr>],
                       pushed_to_disk := pushed_to_disk w + 1,
                       film_log := film_log w @ [GENERAL_pushes (frame (?q ! i))],
                       j2c_files := (j2c_files w)((reel (?q ! i), frame (?q ! i), eyes (?q ! i)) \<mapsto> d),
                       queued_full_in_memory := queued_full_in_memory w - 1\<rparr>)"
    using assms d by (simp add: spill_one_def Let_def)
  with s d far show ?thesis by (simp add: length_sort_queue)
qed

theorem push_to_disk_selects_witness:
  "spill_index (queue three_frames) = Some 1
   \<and> sort_queue (queue three_frames)
       = [item FULL (Some [5]) 0 0 5 EYES_BOTH, item FULL (Some [7]) 0 0 7 EYES_BOTH,
          item FAKE None 9 0 8 EYES_BOTH]
   \<and> count_ok three_frames
   \<and> queued_full_in_memory three_frames > maximum_frames_in_memory three_frames
   \<and> 1 \<le> maximum_frames_in_memory three_frames
   \<and> (\<exists>w'. spill_one three_frames = Inr w'
         \<and> queue w' = [item FULL (Some [5]) 0 0 5 EYES_BOTH, item FULL None 0 0 7 EYES_BOTH,
                       item FAKE None 9 0 8 EYES_BOTH]
         \<and> j2c_files w' (0, 7, EYES_BOTH) = Some [7]
         \<and> queued_full_in_memory w' = 1)"
proof -
  have a: "count_ok three_frames"
    "queued_full_in_memory three_frames > maximum_frames_in_memory three_frames"
    "1 \<le> maximum_frames_in_memory three_frames" "queued_full_in_memory three_frames = 2"
    by (simp_all add: count_ok_def three_frames_def set_encoder_threads_def in_memory_def item_def)
  have q: "sort_queue (queue three_frames)
       = [item FULL (Some [5]) 0 0 5 EYES_BOTH, item FULL (Some [7]) 0 0 7 EYES_BOTH,
          item FAKE None 9 0 8 EYES_BOTH]"
    by (simp add: three_frames_def set_encoder_threads_def item_def queue_lt_def)
  have i: "spill_index (queue three_frames) = Some 1"
    by (simp add: spill_index_def three_frames_def set_encoder_threads_def item_def queue_lt_def)
  from push_to_disk_selects [OF i] obtain w' d where
    "spill_one three_frames = Inr w'"
    "encoded (sort_queue (queue three_frames) ! 1) = Some d"
    "queue w' = (sort_queue (queue three_frames))
                  [1 := (sort_queue (queue three_frames) ! 1)\<lparr>encoded := None\<rparr>]"
    "j2c_files w' (reel (sort_queue (queue three_frames) ! 1),
                   frame (sort_queue (queue three_frames) ! 1),
                   eyes (sort_queue (queue three_frames) ! 1)) = Some d"
    "queued_full_in_memory w' = queued_full_in_memory three_frames - 1"
    by blast
  with q a have "spill_one three_frames = Inr w'
         \<and> queue w' = [item FULL (Some [5]) 0 0 5 EYES_BOTH, item FULL None 0 0 7 EYES_BOTH,
                       item FAKE None 9 0 8 EYES_BOTH]
         \<and> j2c_files w' (0, 7, EYES_BOTH) = Some [7]
         \<and> queued_full_in_memory w' = 1"
    by (simp add: item_def)
  with i q a show ?thesis by blast
qed

subsection \<open>The bound on frames in memory\<close>








subsection \<open>Finishing with a gap\<close>

lemma have_sequenced_film_log:
  "fst (have_sequenced_image_at_queue_head (w\<lparr>film_log := l\<rparr>))
     = fst (have_sequenced_image_at_queue_head w)"
  by (simp add: have_sequenced_image_at_queue_head_def Let_def)

lemma have_sequenced_finish:
  "fst (have_sequenced_image_at_queue_head (w\<lparr>finish := b\<rparr>))
     = fst (have_sequenced_image_at_queue_head w)"
  by (simp add: have_sequenced_image_at_queue_head_def Let_def)

lemma finish_write_front: "write_front w = Inr w' \<Longrightarrow> finish w' = finish w"
  by (auto simp: write_front_def Let_def split: list.splits Type.splits option.splits)

lemma finish_spill_one: "spill_one w = Inr w' \<Longrightarrow> finish w' = finish w"
  by (auto simp: spill_one_def Let_def split: option.splits)

lemma finish_write_loop: "write_loop w = Inr w' \<Longrightarrow> finish w' = finish w"
proof (induction w rule: write_loop.induct)
  case (1 w)
  show ?case
  proof (cases "fst (have_sequenced_image_at_queue_head w)")
    case True
    from "1.prems" True
    have "(case write_front (snd (have_sequenced_image_at_queue_head w)) of
             Inl err \<Rightarrow> Inl err | Inr w2 \<Rightarrow> write_loop w2) = Inr w'"
      by (subst (asm) write_loop.simps) simp
    then obtain w2 where f: "write_front (snd (have_sequenced_image_at_queue_head w)) = Inr w2"
      and l: "write_loop w2 = Inr w'"
      by (cases "write_front (snd (have_sequenced_image_at_queue_head w))") simp_all
    from "1.IH" [OF True f l] finish_write_front [OF f] show ?thesis
      by (simp add: snd_have_sequenced)
  next
    case False
    from "1.prems" False have "w' = snd (have_sequenced_image_at_queue_head w)"
      by (subst (asm) write_loop.simps) simp
    then show ?thesis by (simp add: snd_have_sequenced)
  qed
qed

lemma finish_spill_loop: "spill_loop w = Inr w' \<Longrightarrow> finish w' = finish w"
proof (induction w rule: spill_loop.induct)
  case (1 w)
  show ?case
  proof (cases "queued_full_in_memory w > maximum_frames_in_memory w")
    case True
    from "1.prems" True
    have "(case spill_one w of Inl err \<Rightarrow> Inl err | Inr w1 \<Rightarrow> spill_loop w1) = Inr w'"
      by (subst (asm) spill_loop.simps) simp
    then obtain w1 where s: "spill_one w = Inr w1" and l: "spill_loop w1 = Inr w'"
      by (cases "spill_one w") simp_all
    from "1.IH" [OF True s l] finish_spill_one [OF s] show ?thesis by simp
  next
    case False
    from "1.prems" False have "w' = w" by (subst (asm) spill_loop.simps) simp
    then show ?thesis by simp
  qed
qed

lemma thread_finishing:
  "finish w \<Longrightarrow> thread w = Inr (st, w') \<Longrightarrow>
     st = Returned
     \<and> (queue w' = []
         \<or> (\<not> fst (have_sequenced_image_at_queue_head w')
             \<and> (\<exists>pre. film_log w' = pre @ WARNING_left_over (length (queue w'))
                                        # map left_over_entry (queue w'))))"
proof (induction w rule: thread.induct)
  case (1 w)
  show ?case
  proof (cases w rule: thread_cases)
    case sleep
    with "1.prems"(1) show ?thesis by simp
  next
    case empty
    from "1.prems"(2) thread_empty [OF empty] empty(2) show ?thesis by simp
  next
    case left_over
    let ?w' = "w\<lparr>queue := sort_queue (queue w),
             film_log := film_log w @ WARNING_left_over (length (queue w))
                           # map left_over_entry (sort_queue (queue w))\<rparr>"
    from "1.prems"(2) thread_left_over [OF left_over] have e: "st = Returned" "w' = ?w'"
      by simp_all
    have "fst (have_sequenced_image_at_queue_head ?w')
            = fst (have_sequenced_image_at_queue_head (w\<lparr>queue := sort_queue (queue w)\<rparr>))"
      by (rule have_sequenced_film_log)
    also have "\<dots> = fst (have_sequenced_image_at_queue_head w)"
      by (rule have_sequenced_sorted)
    finally have "\<not> fst (have_sequenced_image_at_queue_head ?w')"
      using left_over(3) by simp
    moreover have "film_log ?w' = film_log w @ WARNING_left_over (length (queue ?w'))
                                        # map left_over_entry (queue ?w')"
      by (simp add: length_sort_queue)
    ultimately show ?thesis using e by blast
  next
    case work
    from "1.prems"(2) thread_work [OF work]
    obtain w2 w3 where wl: "write_loop w = Inr w2" and sl: "spill_loop w2 = Inr w3"
      and t: "thread w3 = Inr (st, w')"
      by (auto split: sum.splits)
    from finish_write_loop [OF wl] finish_spill_loop [OF sl] "1.prems"(1)
    have f3: "finish w3" by simp
    from "1.IH" [OF _ _ _ wl sl f3 t] thread_work_induct [OF work] show ?thesis by blast
  qed
qed

lemma gap_run: "terminate_thread gap = Some (Inr gap_end)"
  by (simp add: terminate_thread_def wake_def thread.simps write_loop.simps spill_loop.simps
      have_sequenced_image_at_queue_head_def write_front_def reel_write_def left_over_entry_def
      gap_def gap_end_def set_encoder_threads_def two_reels_def new_writer_def new_reel_def
      item_def queue_lt_def Let_def)

text \<open>
  Claim C7.  When the writer is told to finish while the head of a non-empty queue is not
  in sequence, the consumer returns at once: the join gives back the writer with the queue
  sorted and untouched, and the log has one line with the number of items left and one line
  for each item, with its frame and eye; nothing is thrown.  Whatever the queue, the join
  returns: the consumer never waits again once the flag is set, and it returns with the queue
  empty or with the items left as the last lines of the log.  It returns without an exception
  whenever the count is right, the released payloads have their files and the maximum is not
  negative: the frames in sequence are written first, then the rest is logged.
\<close>

theorem finishing_stops:
  "(queue w \<noteq> [] \<and> \<not> fst (have_sequenced_image_at_queue_head w) \<longrightarrow>
      terminate_thread w
        = Some (Inr (w\<lparr>finish := True, queue := sort_queue (queue w),
                       film_log := film_log w @ TIMING_wake (length (queue w))
                                     # WARNING_left_over (length (queue w))
                                     # map left_over_entry (sort_queue (queue w))\<rparr>)))
   \<and> terminate_thread w \<noteq> None
   \<and> (\<forall>w'. terminate_thread w = Some (Inr w') \<longrightarrow>
         queue w' = []
         \<or> (\<not> fst (have_sequenced_image_at_queue_head w')
             \<and> (\<exists>pre. film_log w' = pre @ WARNING_left_over (length (queue w'))
                                        # map left_over_entry (queue w'))))
   \<and> (count_ok w \<and> files_ok w \<and> 0 \<le> maximum_frames_in_memory w \<longrightarrow>
         (\<exists>w'. terminate_thread w = Some (Inr w')))
   \<and> (left_over_entry i = WARNING_type_full (frame i) (eyes i)
       \<or> left_over_entry i = WARNING_type_fake (size_q i) (frame i) (eyes i))"
proof -
  let ?w = "w\<lparr>finish := True, film_log := film_log w @ [TIMING_wake (length (queue w))]\<rparr>"
  have f: "finish ?w" by simp
  have e: "\<exists>w'. terminate_thread w = Some (Inr w')"
    if "count_ok w" "files_ok w" "0 \<le> maximum_frames_in_memory w"
  proof -
    from that have "count_ok ?w" "files_ok ?w" "0 \<le> maximum_frames_in_memory ?w"
      by (simp_all add: count_ok_def files_ok_def)
    from thread_returns [OF this] obtain st w' where t: "thread ?w = Inr (st, w')" by blast
    from thread_finishing [OF f t] have "st = Returned" by simp
    with t show ?thesis by (simp add: terminate_thread_def wake_def)
  qed
  have a: "terminate_thread w
        = Some (Inr (w\<lparr>finish := True, queue := sort_queue (queue w),
                       film_log := film_log w @ TIMING_wake (length (queue w))
                                     # WARNING_left_over (length (queue w))
                                     # map left_over_entry (sort_queue (queue w))\<rparr>))"
    if "queue w \<noteq> []" "\<not> fst (have_sequenced_image_at_queue_head w)"
  proof -
    from that(1) have q: "queue ?w \<noteq> []" by simp
    from that(2) have r: "\<not> fst (have_sequenced_image_at_queue_head ?w)"
      by (simp only: have_sequenced_film_log have_sequenced_finish not_False_eq_True)
    from thread_left_over [OF f q r] show ?thesis
      by (simp add: terminate_thread_def wake_def)
  qed
  have b: "terminate_thread w \<noteq> None"
  proof (cases "thread ?w")
    case (Inl err)
    then show ?thesis by (simp add: terminate_thread_def wake_def)
  next
    case (Inr p)
    obtain st w' where p: "p = (st, w')" by (cases p)
    with Inr thread_finishing [OF f, of st w'] show ?thesis
      by (simp add: terminate_thread_def wake_def)
  qed
  have c: "queue w' = []
         \<or> (\<not> fst (have_sequenced_image_at_queue_head w')
             \<and> (\<exists>pre. film_log w' = pre @ WARNING_left_over (length (queue w'))
                                        # map left_over_entry (queue w')))"
    if "terminate_thread w = Some (Inr w')" for w'
  proof -
    from that have "thread ?w = Inr (Returned, w')"
      by (auto simp: terminate_thread_def wake_def split: sum.splits ThreadState.splits)
    from thread_finishing [OF f this] show ?thesis by simp
  qed
  have d: "left_over_entry i = WARNING_type_full (frame i) (eyes i)
       \<or> left_over_entry i = WARNING_type_fake (size_q i) (frame i) (eyes i)"
    by (simp add: left_over_entry_def)
  from a b c d e show ?thesis by blast
qed

theorem finishing_stops_witness:
  "count_ok gap \<and> files_ok gap \<and> 0 \<le> maximum_frames_in_memory gap
   \<and> terminate_thread gap = Some (Inr gap_end)
   \<and> queue gap_end = [item FULL (Some [13]) 0 0 3 EYES_BOTH]
   \<and> \<not> fst (have_sequenced_image_at_queue_head gap_end)
   \<and> full_written gap_end = 2
   \<and> film_log gap_end
       = [TIMING_wake 3, DEBUG_full_writes 0 EYES_BOTH, DEBUG_full_writes 1 EYES_BOTH,
          WARNING_left_over 1, WARNING_type_full 3 EYES_BOTH]"
proof -
  have q: "queue gap_end = [item FULL (Some [13]) 0 0 3 EYES_BOTH]" "full_written gap_end = 2"
    "film_log gap_end
       = [TIMING_wake 3, DEBUG_full_writes 0 EYES_BOTH, DEBUG_full_writes 1 EYES_BOTH,
          WARNING_left_over 1, WARNING_type_full 3 EYES_BOTH]"
    by (simp_all add: gap_end_def)
  have h: "count_ok gap" "files_ok gap" "0 \<le> maximum_frames_in_memory gap"
    by (simp_all add: gap_def count_ok_def files_ok_def in_memory_def item_def
        set_encoder_threads_def)
  from finishing_stops [where w = gap] gap_run q(1)
  have "\<not> fst (have_sequenced_image_at_queue_head gap_end)" by auto
  with gap_run q h show ?thesis by simp
qed

end
